theory Spec2Isabelle
  imports Main "HOL-Library.Word"
begin

unbundle bit_operations_syntax

section \<open>The EEPROM ring logger of ee-logs.h\<close>

text \<open>
  The header generates, for every log declared with
  \<^verbatim>\<open>LOGGER( name, recs, rec_size, start_addr )\<close>, a set of functions over a few
  static variables.  The three macro parameters are kept in a record; the C type
  \<^verbatim>\<open>unsigned char\<close> is an 8-bit word, so every \<^verbatim>\<open>-=\<close>, \<^verbatim>\<open>+=\<close>, \<^verbatim>\<open>++\<close> and
  \<^verbatim>\<open>--\<close> on it wraps as in C.  EEPROM addresses (\<^verbatim>\<open>unsigned int\<close>) are natural
  numbers: the log's region is taken to lie inside the address range of the
  target, so address arithmetic never wraps.
\<close>

type_synonym byte = "8 word"

type_synonym eeprom = "nat \<Rightarrow> byte"

record logger_cfg =
  recs :: nat
  rec_size :: nat
  start_addr :: nat

text \<open>The documented contract of the macro parameters.\<close>

definition valid_cfg :: "logger_cfg \<Rightarrow> bool" where
  "valid_cfg c \<longleftrightarrow> 2 \<le> recs c \<and> recs c \<le> 255 \<and> 2 \<le> rec_size c \<and> rec_size c \<le> 255"

definition LOG_FLAG_MASK :: byte where
  "LOG_FLAG_MASK = 0x80"

text \<open>\<^verbatim>\<open>#define Log_ReadFlag( addr )  ( LOG_FLAG_MASK & ReadEE((void*)(addr)) )\<close>\<close>

definition Log_ReadFlag :: "eeprom \<Rightarrow> nat \<Rightarrow> byte" where
  "Log_ReadFlag ee addr = LOG_FLAG_MASK AND ee addr"

text \<open>
  The static variables of one log: the staging buffer, the write position
  \<^verbatim>\<open>Log_CurRec__\<close>, the flag \<^verbatim>\<open>Log_CurFlag__\<close>, the 'current record'
  \<^verbatim>\<open>Log_CurReadRec__\<close>, and the two function-local statics \<^verbatim>\<open>a\<close> and \<^verbatim>\<open>i\<close> of
  \<^verbatim>\<open>Log_NoblockingWrite\<close>.
\<close>

record logger =
  Log_RecBuf :: "byte list"
  Log_CurRec :: byte
  Log_CurFlag :: byte
  Log_CurReadRec :: byte
  wr_a :: nat
  wr_i :: byte

text \<open>The state of the statics at program start (C zero-initialisation).\<close>

definition logger_reset :: "logger_cfg \<Rightarrow> logger" where
  "logger_reset c = \<lparr> Log_RecBuf = replicate (rec_size c) 0, Log_CurRec = 0, Log_CurFlag = 0,
     Log_CurReadRec = 0, wr_a = 0, wr_i = 0 \<rparr>"

text \<open>
  The statement \<^verbatim>\<open>if ( r -= (recs)-1 ) r += (recs);\<close> that the header uses to step
  an index forward around the ring, and \<^verbatim>\<open>if ( r ) -- r; else r = (recs) - 1;\<close> that
  steps it backward.
\<close>

definition ring_fwd :: "logger_cfg \<Rightarrow> byte \<Rightarrow> byte" where
  "ring_fwd c r = (let r1 = r - (of_nat (recs c) - 1) in if r1 \<noteq> 0 then r1 + of_nat (recs c) else r1)"

definition ring_bwd :: "logger_cfg \<Rightarrow> byte \<Rightarrow> byte" where
  "ring_bwd c r = (if r \<noteq> 0 then r - 1 else of_nat (recs c) - 1)"

subsection \<open>Reading one record\<close>

text \<open>
  \<^verbatim>\<open>do { *dst++ = ReadEE( (void*) a ); ++a; } while ( --i );\<close>
  The destination is the caller's buffer and \<open>k\<close> the offset \<^verbatim>\<open>dst\<close> has reached.
\<close>

function Log_ReadRec_loop :: "eeprom \<Rightarrow> byte \<Rightarrow> nat \<Rightarrow> nat \<Rightarrow> byte list \<Rightarrow> nat \<times> nat \<times> byte list" where
  "Log_ReadRec_loop ee i a k dst =
     (let dst1 = dst[k := ee a]; k1 = k + 1; a1 = a + 1; i1 = i - 1
      in if i1 \<noteq> 0 then Log_ReadRec_loop ee i1 a1 k1 dst1 else (a1, k1, dst1))"
  by pat_completeness auto
termination
proof (relation "measure (\<lambda>(ee, i, a, k, dst). unat (i - 1))", goal_cases)
  case 1
  show ?case by simp
next
  case (2 ee i a k dst dst1 k1 a1 i1)
  then show ?case
    using unat_minus_one [of "i - 1"] unat_gt_0 [of "i - 1"] by simp
qed

declare Log_ReadRec_loop.simps [simp del]

definition Log_ReadRec :: "logger_cfg \<Rightarrow> eeprom \<Rightarrow> byte list \<Rightarrow> byte \<Rightarrow> byte list" where
  "Log_ReadRec c ee dst r =
     (let i = of_nat (rec_size c) - 1;
          a = start_addr c + unat r * rec_size c;
          (a1, k1, dst1) = Log_ReadRec_loop ee i a 0 dst
      in dst1[k1 := NOT LOG_FLAG_MASK AND ee a1])"

subsection \<open>Cursor traversal\<close>

definition Log_ReadCur :: "logger_cfg \<Rightarrow> eeprom \<Rightarrow> logger \<Rightarrow> byte list \<Rightarrow> byte list" where
  "Log_ReadCur c ee s dst = Log_ReadRec c ee dst (Log_CurReadRec s)"

definition Log_ReadFirst :: "logger_cfg \<Rightarrow> eeprom \<Rightarrow> logger \<Rightarrow> byte list \<Rightarrow> logger \<times> byte list" where
  "Log_ReadFirst c ee s dst =
     (let r = ring_fwd c (Log_CurRec s)
      in (s\<lparr>Log_CurReadRec := r\<rparr>, Log_ReadRec c ee dst r))"

definition Log_ReadLast :: "logger_cfg \<Rightarrow> eeprom \<Rightarrow> logger \<Rightarrow> byte list \<Rightarrow> logger \<times> byte list" where
  "Log_ReadLast c ee s dst =
     (let r = ring_bwd c (Log_CurRec s)
      in (s\<lparr>Log_CurReadRec := r\<rparr>, Log_ReadRec c ee dst r))"

definition Log_ReadNext :: "logger_cfg \<Rightarrow> eeprom \<Rightarrow> logger \<Rightarrow> byte list \<Rightarrow> byte \<times> logger \<times> byte list" where
  "Log_ReadNext c ee s dst =
     (let r = ring_fwd c (Log_CurReadRec s)
      in if r = Log_CurRec s then (0, s, dst)
         else (1, s\<lparr>Log_CurReadRec := r\<rparr>, Log_ReadRec c ee dst r))"

definition Log_ReadPrev :: "logger_cfg \<Rightarrow> eeprom \<Rightarrow> logger \<Rightarrow> byte list \<Rightarrow> byte \<times> logger \<times> byte list" where
  "Log_ReadPrev c ee s dst =
     (let r = ring_bwd c (Log_CurReadRec s)
      in if r = Log_CurRec s then (0, s, dst)
         else (1, s\<lparr>Log_CurReadRec := r\<rparr>, Log_ReadRec c ee dst r))"

subsection \<open>Initialisation\<close>

text \<open>
  The \<^verbatim>\<open>do ... while ( cr < (recs) )\<close> loop of \<^verbatim>\<open>Log_InitLog\<close>.  The counter
  \<^verbatim>\<open>cr\<close> is an \<^verbatim>\<open>unsigned char\<close>, so for \<open>recs > 255\<close> the loop need not end: the
  result is an option, \<open>None\<close> standing for a scan that never returns.  The list
  \<open>rd\<close> is not in the C code: it records the addresses handed to \<^verbatim>\<open>ReadEE\<close>, in
  order.
\<close>

partial_function (option) Log_InitLog_loop ::
  "logger_cfg \<Rightarrow> eeprom \<Rightarrow> byte \<Rightarrow> nat \<Rightarrow> byte \<Rightarrow> nat list \<Rightarrow> logger \<Rightarrow> (logger \<times> nat list) option" where
  "Log_InitLog_loop c ee f a cr rd s =
     (let a1 = a + rec_size c; rd1 = rd @ [a1]
      in if f XOR Log_ReadFlag ee a1 \<noteq> 0
         then Some (s\<lparr>Log_CurRec := cr, Log_CurReadRec := ring_fwd c cr\<rparr>, rd1)
         else let cr1 = cr + 1
              in if uint cr1 < int (recs c)
                 then Log_InitLog_loop c ee f a1 cr1 rd1 s
                 else Some (s\<lparr>Log_CurRec := 0, Log_CurReadRec := 1,
                              Log_CurFlag := f XOR LOG_FLAG_MASK\<rparr>, rd1))"

declare Log_InitLog_loop.simps [code]

definition Log_InitLog :: "logger_cfg \<Rightarrow> eeprom \<Rightarrow> logger \<Rightarrow> (logger \<times> nat list) option" where
  "Log_InitLog c ee s =
     (let a = start_addr c + rec_size c;
          f = Log_ReadFlag ee a
      in Log_InitLog_loop c ee f a 1 [a] (s\<lparr>Log_CurFlag := f\<rparr>))"

subsection \<open>The non-blocking writer\<close>

text \<open>
  The medium as the writer sees it: the cells of the EEPROM and, as a record of
  the effect \<^verbatim>\<open>WriteEE\<close>, the list of byte writes issued so far.  The answer of
  \<^verbatim>\<open>isEEfree()\<close> is an argument of each invocation.
\<close>

record medium =
  cells :: eeprom
  issued :: "(nat \<times> byte) list"

definition WriteEE :: "medium \<Rightarrow> nat \<Rightarrow> byte \<Rightarrow> medium" where
  "WriteEE m a b = m\<lparr>cells := (cells m)(a := b), issued := issued m @ [(a, b)]\<rparr>"

text \<open>\<^verbatim>\<open>do { *p++ = *src++ ; } while ( --i );\<close> with both pointers at offset \<open>k\<close>.\<close>

function Log_copy_loop :: "byte \<Rightarrow> nat \<Rightarrow> byte list \<Rightarrow> byte list \<Rightarrow> byte list" where
  "Log_copy_loop i k src buf =
     (let buf1 = buf[k := src ! k]; k1 = k + 1; i1 = i - 1
      in if i1 \<noteq> 0 then Log_copy_loop i1 k1 src buf1 else buf1)"
  by pat_completeness auto
termination
proof (relation "measure (\<lambda>(i, k, src, buf). unat (i - 1))", goal_cases)
  case 1
  show ?case by simp
next
  case (2 i k src buf buf1 k1 i1)
  then show ?case
    using unat_minus_one [of "i - 1"] unat_gt_0 [of "i - 1"] by simp
qed

declare Log_copy_loop.simps [simp del]

text \<open>The code from the label \<^verbatim>\<open>test:\<close> on; \<open>None\<close> is the null pointer.\<close>

definition Log_Write_test :: "logger_cfg \<Rightarrow> byte list option \<Rightarrow> logger \<Rightarrow> medium \<Rightarrow> byte \<times> logger \<times> medium" where
  "Log_Write_test c src s m =
     (case src of
        None \<Rightarrow> (1, s, m)
      | Some bs \<Rightarrow>
         (let a = start_addr c + rec_size c * unat (Log_CurRec s);
              i = of_nat (rec_size c) - 1;
              m1 = WriteEE m a (bs ! 0);
              a1 = a + 1;
              buf = (Log_RecBuf s)[0 := 1];
              buf1 = Log_copy_loop i 1 bs buf
          in (1, s\<lparr>Log_RecBuf := buf1, wr_a := a1, wr_i := 1\<rparr>, m1)))"

text \<open>The branch that writes the last byte of the record.\<close>

definition Log_Write_last :: "logger_cfg \<Rightarrow> logger \<Rightarrow> medium \<Rightarrow> byte \<times> logger \<times> medium" where
  "Log_Write_last c s m =
     (let r0 = (Log_RecBuf s ! unat (wr_i s)) AND NOT LOG_FLAG_MASK;
          m1 = WriteEE m (wr_a s) (Log_CurFlag s OR r0);
          r1 = Log_CurRec s - (of_nat (recs c) - 1);
          r = (if r1 \<noteq> 0 then r1 + of_nat (recs c) else r1);
          fl = (if r1 \<noteq> 0 then Log_CurFlag s else Log_CurFlag s XOR LOG_FLAG_MASK);
          i = Log_CurReadRec s;
          rd = (if i = r then (if uint i = int (recs c) - 1 then 0 else i + 1) else i)
      in (0, s\<lparr>Log_CurRec := r, Log_CurFlag := fl, Log_CurReadRec := rd,
                 wr_i := of_nat (rec_size c)\<rparr>, m1))"

definition Log_NoblockingWrite ::
  "logger_cfg \<Rightarrow> bool \<Rightarrow> byte list option \<Rightarrow> logger \<Rightarrow> medium \<Rightarrow> byte \<times> logger \<times> medium" where
  "Log_NoblockingWrite c free src s m =
     (if \<not> free then (0, s, m)
      else if wr_a s \<noteq> 0 then
        (if uint (wr_i s) = int (rec_size c) then Log_Write_test c src (s\<lparr>wr_a := 0\<rparr>) m
         else if uint (wr_i s) = int (rec_size c) - 1 then Log_Write_last c s m
         else (0, s\<lparr>wr_a := wr_a s + 1, wr_i := wr_i s + 1\<rparr>,
                  WriteEE m (wr_a s) (Log_RecBuf s ! unat (wr_i s))))
      else Log_Write_test c src s m)"

subsection \<open>Callers\<close>

text \<open>
  A caller polls the writer: a list of invocations, each with the answer of
  \<^verbatim>\<open>isEEfree()\<close> at that moment and the \<^verbatim>\<open>src\<close> argument.  The result lists,
  for every invocation, its return value and the statics and the medium after it.
\<close>

fun Log_polls ::
  "logger_cfg \<Rightarrow> (bool \<times> byte list option) list \<Rightarrow> logger \<Rightarrow> medium \<Rightarrow> (byte \<times> logger \<times> medium) list" where
  "Log_polls c [] s m = []"
| "Log_polls c ((free, src) # cs) s m =
     (case Log_NoblockingWrite c free src s m of
        (r, s1, m1) \<Rightarrow> (r, s1, m1) # Log_polls c cs s1 m1)"

definition polls_end ::
  "logger_cfg \<Rightarrow> (bool \<times> byte list option) list \<Rightarrow> logger \<Rightarrow> medium \<Rightarrow> logger \<times> medium" where
  "polls_end c cs s m = snd (last ((0, s, m) # Log_polls c cs s m))"

text \<open>
  The interface of one log as a caller uses it.  A program is a list of calls
  run against the statics, the medium and one destination buffer; each call is
  observed by its return value (\<open>None\<close> for the \<^verbatim>\<open>void\<close> functions) and the
  contents of the destination buffer after it.
\<close>

datatype log_call =
    Init
  | ReadFirst
  | ReadLast
  | ReadNext
  | ReadPrev
  | ReadCur
  | NoblockingWrite bool "byte list option"

type_synonym world = "logger \<times> medium \<times> byte list"

fun Log_call :: "logger_cfg \<Rightarrow> log_call \<Rightarrow> world \<Rightarrow> (byte option \<times> world) option" where
  "Log_call c Init (s, m, dst) =
     (case Log_InitLog c (cells m) s of
        None \<Rightarrow> None
      | Some (s1, rd) \<Rightarrow> Some (None, s1, m, dst))"
| "Log_call c ReadFirst (s, m, dst) =
     (case Log_ReadFirst c (cells m) s dst of (s1, dst1) \<Rightarrow> Some (None, s1, m, dst1))"
| "Log_call c ReadLast (s, m, dst) =
     (case Log_ReadLast c (cells m) s dst of (s1, dst1) \<Rightarrow> Some (None, s1, m, dst1))"
| "Log_call c ReadNext (s, m, dst) =
     (case Log_ReadNext c (cells m) s dst of (r, s1, dst1) \<Rightarrow> Some (Some r, s1, m, dst1))"
| "Log_call c ReadPrev (s, m, dst) =
     (case Log_ReadPrev c (cells m) s dst of (r, s1, dst1) \<Rightarrow> Some (Some r, s1, m, dst1))"
| "Log_call c ReadCur (s, m, dst) = Some (None, s, m, Log_ReadCur c (cells m) s dst)"
| "Log_call c (NoblockingWrite free src) (s, m, dst) =
     (case Log_NoblockingWrite c free src s m of (r, s1, m1) \<Rightarrow> Some (Some r, s1, m1, dst))"

fun Log_run :: "logger_cfg \<Rightarrow> log_call list \<Rightarrow> world \<Rightarrow> ((byte option \<times> byte list) list \<times> world) option" where
  "Log_run c [] w = Some ([], w)"
| "Log_run c (x # xs) w =
     (case Log_call c x w of
        None \<Rightarrow> None
      | Some (r, w1) \<Rightarrow>
         (case Log_run c xs w1 of
            None \<Rightarrow> None
          | Some (obs, w2) \<Rightarrow> Some ((r, snd (snd w1)) # obs, w2)))"

subsection \<open>Notions of the specification\<close>

text \<open>
  Slot \<open>r\<close> occupies the \<open>rec_size\<close> bytes from \<open>slot_addr c r\<close>; the most
  significant bit of its last byte is the service flag, and a record is
  delivered with that bit cleared.
\<close>

definition slot_addr :: "logger_cfg \<Rightarrow> nat \<Rightarrow> nat" where
  "slot_addr c r = start_addr c + r * rec_size c"

definition slot_bytes :: "logger_cfg \<Rightarrow> eeprom \<Rightarrow> nat \<Rightarrow> byte list" where
  "slot_bytes c ee r = map ee [slot_addr c r ..< slot_addr c r + rec_size c]"

definition strip_flag :: "byte list \<Rightarrow> byte list" where
  "strip_flag xs = butlast xs @ [last xs AND 0x7F]"

definition flag_addr :: "logger_cfg \<Rightarrow> nat \<Rightarrow> nat" where
  "flag_addr c r = slot_addr c r + (rec_size c - 1)"

definition slot_flag :: "logger_cfg \<Rightarrow> eeprom \<Rightarrow> nat \<Rightarrow> byte" where
  "slot_flag c ee r = LOG_FLAG_MASK AND ee (flag_addr c r)"

definition in_region :: "logger_cfg \<Rightarrow> nat \<Rightarrow> bool" where
  "in_region c a \<longleftrightarrow> start_addr c \<le> a \<and> a < start_addr c + recs c * rec_size c"

text \<open>Both cursors are slot indices.\<close>

definition wf_logger :: "logger_cfg \<Rightarrow> logger \<Rightarrow> bool" where
  "wf_logger c s \<longleftrightarrow> unat (Log_CurRec s) < recs c \<and> unat (Log_CurReadRec s) < recs c"

text \<open>The writer is not in the middle of a record: it is idle or has just issued a last byte.\<close>

definition writer_at_rest :: "logger_cfg \<Rightarrow> logger \<Rightarrow> bool" where
  "writer_at_rest c s \<longleftrightarrow> wr_a s = 0 \<or> uint (wr_i s) = int (rec_size c)"

text \<open>
  What a read call that delivers slot \<open>r\<close> does to the destination buffer: its
  first \<open>rec_size\<close> bytes become the bytes of the slot with the flag bit of the
  last one cleared, and nothing else changes.
\<close>

definition delivers :: "logger_cfg \<Rightarrow> eeprom \<Rightarrow> byte list \<Rightarrow> byte list \<Rightarrow> nat \<Rightarrow> bool" where
  "delivers c ee dst dst' r \<longleftrightarrow>
     length dst' = length dst \<and>
     take (rec_size c) dst' = strip_flag (slot_bytes c ee r) \<and>
     drop (rec_size c) dst' = drop (rec_size c) dst \<and>
     dst' ! (rec_size c - 1) < 0x80"

text \<open>
  What the scan of \<^verbatim>\<open>Log_InitLog\<close> looks at.  Its \<open>k\<close>-th read, counted from 0,
  is at \<open>start_addr + (k + 1) * rec_size\<close>, and it takes bit 7 of that byte.
  \<open>first_mismatch\<close> is the least position from 1 whose bit differs from the bit
  at position 0, and \<open>scan_result\<close> the statics the scan leaves.
\<close>

definition scanned_flag :: "logger_cfg \<Rightarrow> eeprom \<Rightarrow> nat \<Rightarrow> byte" where
  "scanned_flag c ee k = Log_ReadFlag ee (slot_addr c (k + 1))"

definition first_mismatch :: "logger_cfg \<Rightarrow> eeprom \<Rightarrow> nat option" where
  "first_mismatch c ee =
     List.find (\<lambda>k. scanned_flag c ee k \<noteq> scanned_flag c ee 0) [1 ..< recs c]"

definition scan_result :: "logger_cfg \<Rightarrow> eeprom \<Rightarrow> logger \<Rightarrow> logger" where
  "scan_result c ee s =
     (case first_mismatch c ee of
        Some k \<Rightarrow> s\<lparr>Log_CurRec := of_nat k, Log_CurFlag := scanned_flag c ee 0,
                    Log_CurReadRec := of_nat ((k + 1) mod recs c)\<rparr>
      | None \<Rightarrow> s\<lparr>Log_CurRec := 0, Log_CurFlag := scanned_flag c ee 0 XOR LOG_FLAG_MASK,
                  Log_CurReadRec := 1\<rparr>)"

text \<open>
  The slots of the ring in the order in which they are written, starting at
  slot \<open>w\<close>; the record a slot holds; and a full traversal: \<^verbatim>\<open>Log_ReadFirst\<close> and
  then \<^verbatim>\<open>Log_ReadNext\<close> as often as there are slots but one, so that the last
  call fails, or \<^verbatim>\<open>Log_ReadLast\<close> and then \<^verbatim>\<open>Log_ReadPrev\<close>.  The records
  delivered are the buffers left by the calls that did not return 0.
\<close>

definition ring_from :: "logger_cfg \<Rightarrow> nat \<Rightarrow> nat list" where
  "ring_from c w = rotate w [0 ..< recs c]"

definition record_at :: "logger_cfg \<Rightarrow> eeprom \<Rightarrow> nat \<Rightarrow> byte list" where
  "record_at c ee r = strip_flag (slot_bytes c ee r)"

definition delivered :: "(byte option \<times> byte list) list \<Rightarrow> byte list list" where
  "delivered obs = map snd (filter (\<lambda>x. fst x \<noteq> Some 0) obs)"

definition forward_calls :: "logger_cfg \<Rightarrow> log_call list" where
  "forward_calls c = ReadFirst # replicate (recs c - 1) ReadNext"

definition backward_calls :: "logger_cfg \<Rightarrow> log_call list" where
  "backward_calls c = ReadLast # replicate (recs c - 1) ReadPrev"

subsection \<open>Transfers\<close>

text \<open>
  The number of changes of value along a list, used to count how often the flag
  \<^verbatim>\<open>Log_CurFlag__\<close> changes over a sequence of invocations of the writer.
\<close>

fun flips :: "byte list \<Rightarrow> nat" where
  "flips (x # y # zs) = (if x \<noteq> y then 1 else 0) + flips (y # zs)"
| "flips _ = 0"

definition flag_flips :: "logger_cfg \<Rightarrow> (bool \<times> byte list option) list \<Rightarrow> logger \<Rightarrow> medium \<Rightarrow> nat" where
  "flag_flips c cs s m = flips (Log_CurFlag s # map (\<lambda>x. Log_CurFlag (fst (snd x))) (Log_polls c cs s m))"

text \<open>
  The invocations that transfer one record \<open>bs\<close>: the call that starts the
  transfer while the medium is ready, the polls \<open>cs1\<close> that carry it on, and
  trailing polls \<open>cs2\<close> with a null \<^verbatim>\<open>src\<close>.
\<close>

definition transfer_calls ::
  "byte list \<times> (bool \<times> byte list option) list \<times> bool list \<Rightarrow> (bool \<times> byte list option) list" where
  "transfer_calls t = (case t of (bs, cs1, cs2) \<Rightarrow> (True, Some bs) # cs1 @ map (\<lambda>f. (f, None)) cs2)"

text \<open>A list of byte writes issued in order.\<close>

definition WriteEE_list :: "medium \<Rightarrow> (nat \<times> byte) list \<Rightarrow> medium" where
  "WriteEE_list m ws = foldl (\<lambda>m w. WriteEE m (fst w) (snd w)) m ws"

text \<open>
  The byte writes a writer in the middle of a record still has to issue: the
  staged bytes from offset \<^verbatim>\<open>i\<close> on, the last one with the flag in its top bit.
\<close>

definition pending_writes :: "logger_cfg \<Rightarrow> logger \<Rightarrow> (nat \<times> byte) list" where
  "pending_writes c s =
     map (\<lambda>k. (wr_a s + (k - unat (wr_i s)),
               if k = rec_size c - 1
               then Log_CurFlag s OR (Log_RecBuf s ! k AND NOT LOG_FLAG_MASK)
               else Log_RecBuf s ! k))
         [unat (wr_i s) ..< rec_size c]"

text \<open>The statics once the record in transfer has been written out.\<close>

definition finished :: "logger_cfg \<Rightarrow> logger \<Rightarrow> logger" where
  "finished c s =
     s\<lparr>Log_CurRec := ring_fwd c (Log_CurRec s),
       Log_CurFlag := (if unat (Log_CurRec s) = recs c - 1 then Log_CurFlag s XOR LOG_FLAG_MASK else Log_CurFlag s),
       Log_CurReadRec := (if Log_CurReadRec s = ring_fwd c (Log_CurRec s)
                          then (if unat (Log_CurReadRec s) = recs c - 1 then 0 else Log_CurReadRec s + 1)
                          else Log_CurReadRec s),
       wr_a := wr_a s + (rec_size c - 1 - unat (wr_i s)),
       wr_i := of_nat (rec_size c)\<rparr>"

text \<open>The statics after the call that starts the transfer of \<open>bs\<close>.\<close>

definition started :: "logger_cfg \<Rightarrow> byte list \<Rightarrow> logger \<Rightarrow> logger" where
  "started c bs s =
     s\<lparr>Log_RecBuf := Log_copy_loop (of_nat (rec_size c) - 1) 1 bs ((Log_RecBuf s)[0 := 1]),
       wr_a := slot_addr c (unat (Log_CurRec s)) + 1,
       wr_i := 1\<rparr>"

text \<open>
  The byte writes that store record \<open>bs\<close> in the slot at the write cursor: its
  bytes at consecutive addresses, the last one with the current flag in bit 7.
\<close>

definition record_writes :: "logger_cfg \<Rightarrow> logger \<Rightarrow> byte list \<Rightarrow> (nat \<times> byte) list" where
  "record_writes c s bs =
     map (\<lambda>k. (slot_addr c (unat (Log_CurRec s)) + k,
               if k = rec_size c - 1 then Log_CurFlag s OR (bs ! k AND 0x7F) else bs ! k))
         [0 ..< rec_size c]"

text \<open>The byte writes issued between two states of the medium.\<close>

definition new_writes :: "medium \<Rightarrow> medium \<Rightarrow> (nat \<times> byte) list" where
  "new_writes m m' = drop (length (issued m)) (issued m')"

text \<open>The slots a caller may read: every index but the write cursor.\<close>

definition readable :: "logger_cfg \<Rightarrow> logger \<Rightarrow> nat set" where
  "readable c s = {r. r < recs c \<and> r \<noteq> unat (Log_CurRec s)}"

subsection \<open>A small log for concrete runs\<close>

text \<open>Four records of three bytes at address 0.\<close>

definition cfg43 :: logger_cfg where
  "cfg43 = \<lparr> recs = 4, rec_size = 3, start_addr = 0 \<rparr>"

definition ee_zero :: eeprom where
  "ee_zero = (\<lambda>a. 0)"

definition medium_zero :: medium where
  "medium_zero = \<lparr> cells = ee_zero, issued = [] \<rparr>"

text \<open>An EEPROM holding the given bytes from address 0 on, and zero elsewhere.\<close>

definition ee_of_list :: "byte list \<Rightarrow> eeprom" where
  "ee_of_list xs = (\<lambda>a. if a < length xs then xs ! a else 0)"

text \<open>Record number \<open>x\<close>: three bytes \<open>x\<close>.\<close>

definition recd :: "byte \<Rightarrow> byte list" where
  "recd x = [x, x, x]"

text \<open>
  Writing one record of three bytes while the medium is always ready: the call
  that starts the transfer and two polls with a null \<^verbatim>\<open>src\<close>.
\<close>

definition write3 :: "byte list \<Rightarrow> log_call list" where
  "write3 bs = [NoblockingWrite True (Some bs), NoblockingWrite True None, NoblockingWrite True None]"

text \<open>Program start on an EEPROM of zeros, with a zeroed destination buffer.\<close>

definition world0 :: world where
  "world0 = (logger_reset cfg43, medium_zero, [0, 0, 0])"

text \<open>The statics of an idle log with the given write cursor, flag and read cursor.\<close>

definition log_at :: "byte \<Rightarrow> byte \<Rightarrow> byte \<Rightarrow> logger" where
  "log_at w g r = \<lparr> Log_RecBuf = [0, 0, 0], Log_CurRec = w, Log_CurFlag = g,
     Log_CurReadRec = r, wr_a = 0, wr_i = 0 \<rparr>"

text \<open>
  Power loss and restart: the statics are back at their initial values, the
  medium keeps its cells.  \<open>Log_run_restart\<close> runs a first program, loses power
  and runs a second program.
\<close>

definition power_loss :: "logger_cfg \<Rightarrow> world \<Rightarrow> world" where
  "power_loss c w = (logger_reset c, fst (snd w), snd (snd w))"

definition Log_run_restart ::
  "logger_cfg \<Rightarrow> log_call list \<Rightarrow> log_call list \<Rightarrow> world \<Rightarrow> ((byte option \<times> byte list) list \<times> world) option" where
  "Log_run_restart c before after w =
     (case Log_run c before w of
        None \<Rightarrow> None
      | Some (obs, w1) \<Rightarrow> Log_run c after (power_loss c w1))"

text \<open>
  The log after seven records \<open>1, \<dots>, 7\<close> have been written to the zeroed EEPROM:
  records 5, 6 and 7 in slots 0, 1 and 2 carry flag 0, the older record 4 in slot
  3 carries flag \<open>0x80\<close>.  Slot 3 is the next to be written.
\<close>

definition seven_writes :: "log_call list" where
  "seven_writes = Init # write3 (recd 1) @ write3 (recd 2) @ write3 (recd 3) @ write3 (recd 4)
     @ write3 (recd 5) @ write3 (recd 6) @ write3 (recd 7)"

definition ring7 :: eeprom where
  "ring7 = ee_of_list [5, 5, 5,  6, 6, 6,  7, 7, 7,  4, 4, 0x84]"

text \<open>
  A ring is consistent with write cursor \<open>w\<close> and flag \<open>g\<close> when the slots before
  \<open>w\<close> carry flag \<open>g\<close> and the slots from \<open>w\<close> on carry the other flag.
\<close>

definition consistent_ring :: "logger_cfg \<Rightarrow> eeprom \<Rightarrow> nat \<Rightarrow> byte \<Rightarrow> bool" where
  "consistent_ring c ee w g \<longleftrightarrow>
     map (slot_flag c ee) [0 ..< recs c] =
     map (\<lambda>r. if r < w then g else g XOR LOG_FLAG_MASK) [0 ..< recs c]"

text \<open>What a run shows of the statics at its end: write cursor, flag, read cursor.\<close>

definition cursors :: "'a \<times> world \<Rightarrow> byte \<times> byte \<times> byte" where
  "cursors r = (Log_CurRec (fst (snd r)), Log_CurFlag (fst (snd r)), Log_CurReadRec (fst (snd r)))"

text \<open>Four transfers on the small log, with busy polls and status probes in between.\<close>

definition four_transfers :: "(byte list \<times> (bool \<times> byte list option) list \<times> bool list) list" where
  "four_transfers =
     [(recd 1, [(True, None), (True, None)], []),
      (recd 2, [(False, None), (True, None), (False, Some (recd 9)), (True, None)], [True]),
      (recd 3, [(True, None), (True, Some (recd 9))], [False, True, True]),
      (recd 4, [(True, None), (True, None), (False, None)], [])]"

text \<open>Program start on an EEPROM with the given cells.\<close>

definition world_on :: "eeprom \<Rightarrow> world" where
  "world_on ee = (logger_reset cfg43, \<lparr> cells = ee, issued = [] \<rparr>, [0, 0, 0])"

text \<open>The bytes of the log's region of the medium.\<close>

definition region_bytes :: "logger_cfg \<Rightarrow> world \<Rightarrow> byte list" where
  "region_bytes c w = map (cells (fst (snd w))) [start_addr c ..< start_addr c + recs c * rec_size c]"

text \<open>
  A ring whose records have bit 7 set in some payload bytes: slots 0 and 1 carry
  flag \<open>0x80\<close>, slots 2 and 3 carry flag 0.
\<close>

definition ring_hi :: eeprom where
  "ring_hi = ee_of_list [0x11, 0x12, 0x93,  0x21, 0x22, 0xA3,  0xB1, 0x32, 0x33,  0x41, 0x42, 0x43]"

text \<open>
  The concrete scenario: two payloads, and the program that scans the zeroed
  EEPROM and writes \<open>A\<close>, \<open>A\<close>, \<open>A\<close>, \<open>B\<close>.
\<close>

definition recA :: "byte list" where
  "recA = recd 0x41"

definition recB :: "byte list" where
  "recB = recd 0x42"

definition fill_AAAB :: "log_call list" where
  "fill_AAAB = Init # write3 recA @ write3 recA @ write3 recA @ write3 recB"

section \<open>Properties\<close>

subsection \<open>Facts for evaluating the small log\<close>

lemma cfg43_simps [simp]: "recs cfg43 = 4" "rec_size cfg43 = 3" "start_addr cfg43 = 0"
  by (simp_all add: cfg43_def)

lemma valid_cfg43 [simp]: "valid_cfg cfg43"
  by (simp add: valid_cfg_def)

lemma upt_0_3: "[0 ..< 3] = [0, 1, 2 :: nat]"
  by (simp add: numeral_3_eq_3 upt_conv_Cons)

lemma upt_0_4: "[0 ..< 4] = [0, 1, 2, 3 :: nat]"
  by (simp add: eval_nat_numeral upt_conv_Cons)

lemma logger_reset43: "logger_reset cfg43 = log_at 0 0 0"
  by (simp add: logger_reset_def log_at_def numeral_3_eq_3)

lemma Log_ReadRec_loop_more:
  "i - 1 \<noteq> 0 \<Longrightarrow> Log_ReadRec_loop ee i a k dst = Log_ReadRec_loop ee (i - 1) (a + 1) (k + 1) (dst[k := ee a])"
  by (subst Log_ReadRec_loop.simps) (simp add: Let_def)

lemma Log_ReadRec_loop_last:
  "i - 1 = 0 \<Longrightarrow> Log_ReadRec_loop ee i a k dst = (a + 1, k + 1, dst[k := ee a])"
  by (subst Log_ReadRec_loop.simps) (simp add: Let_def)

lemma Log_copy_loop_more:
  "i - 1 \<noteq> 0 \<Longrightarrow> Log_copy_loop i k src buf = Log_copy_loop (i - 1) (k + 1) src (buf[k := src ! k])"
  by (subst Log_copy_loop.simps) (simp add: Let_def)

lemma Log_copy_loop_last:
  "i - 1 = 0 \<Longrightarrow> Log_copy_loop i k src buf = buf[k := src ! k]"
  by (subst Log_copy_loop.simps) (simp add: Let_def)

lemmas run_eval =
  Log_InitLog_def Log_InitLog_loop.simps Log_ReadFlag_def LOG_FLAG_MASK_def ring_fwd_def ring_bwd_def
  Log_ReadRec_def Log_ReadFirst_def Log_ReadNext_def Log_ReadPrev_def Log_ReadLast_def Log_ReadCur_def
  Log_NoblockingWrite_def Log_Write_test_def Log_Write_last_def WriteEE_def
  Log_ReadRec_loop_more Log_ReadRec_loop_last Log_copy_loop_more Log_copy_loop_last
  logger_reset43 log_at_def world0_def medium_zero_def ee_zero_def ee_of_list_def ring7_def
  write3_def recd_def seven_writes_def power_loss_def Log_run_restart_def cursors_def
  world_on_def ring_hi_def recA_def recB_def fill_AAAB_def

subsection \<open>Stepping around the ring\<close>

lemma byte_of_nat_inj: "a < 256 \<Longrightarrow> b < 256 \<Longrightarrow> (of_nat a :: byte) = of_nat b \<longleftrightarrow> a = b"
  by (simp add: word_of_nat_eq_iff take_bit_nat_eq_self)

lemma ring_fwd_eq:
  assumes "2 \<le> recs c" "recs c \<le> 255" "unat r < recs c"
  shows "ring_fwd c r = (if unat r = recs c - 1 then 0 else r + 1)"
proof -
  have r: "r = of_nat (unat r)" by simp
  have N: "(of_nat (recs c) :: byte) - 1 = of_nat (recs c - 1)" using assms by simp
  have "r - (of_nat (recs c) - 1) = 0 \<longleftrightarrow> unat r = recs c - 1"
  proof -
    have "r - (of_nat (recs c) - 1) = 0 \<longleftrightarrow> (of_nat (unat r) :: byte) = of_nat (recs c - 1)"
      using N by simp
    also have "\<dots> \<longleftrightarrow> unat r = recs c - 1"
      using assms by (intro byte_of_nat_inj) auto
    finally show ?thesis .
  qed
  then show ?thesis by (simp add: ring_fwd_def Let_def)
qed

lemma ring_fwd_unat:
  assumes "2 \<le> recs c" "recs c \<le> 255" "unat r < recs c"
  shows "unat (ring_fwd c r) = (unat r + 1) mod recs c"
proof (cases "unat r = recs c - 1")
  case True
  then show ?thesis using assms by (simp add: ring_fwd_eq)
next
  case False
  then have "unat r + 1 < recs c" using assms by simp
  moreover have "unat (r + 1) = unat r + 1"
    using assms by (simp add: unat_word_ariths)
  ultimately show ?thesis using assms False by (simp add: ring_fwd_eq)
qed

lemma ring_bwd_unat:
  assumes "2 \<le> recs c" "recs c \<le> 255" "unat r < recs c"
  shows "unat (ring_bwd c r) = (unat r + recs c - 1) mod recs c"
proof (cases "r = 0")
  case True
  have "unat (of_nat (recs c) - 1 :: byte) = recs c - 1"
    using assms by (simp add: unat_sub word_le_nat_alt unat_of_nat)
  then show ?thesis using True assms by (simp add: ring_bwd_def)
next
  case False
  then have "unat r \<noteq> 0" by (simp add: unat_eq_0)
  then have "unat (r - 1) = unat r - 1" using False by (simp add: unat_minus_one)
  moreover have "(unat r + recs c - 1) mod recs c = unat r - 1"
    using assms \<open>unat r \<noteq> 0\<close> by (simp add: mod_if)
  ultimately show ?thesis using False by (simp add: ring_bwd_def)
qed

subsection \<open>Reading a record\<close>

lemma Log_ReadRec_loop_eq:
  "i \<noteq> 0 \<Longrightarrow> k + unat i \<le> length dst \<Longrightarrow>
   Log_ReadRec_loop ee i a k dst =
     (a + unat i, k + unat i, take k dst @ map ee [a ..< a + unat i] @ drop (k + unat i) dst)"
proof (induction "unat i" arbitrary: i a k dst)
  case 0
  then show ?case by (simp add: unat_eq_0)
next
  case (Suc n)
  show ?case
  proof (cases "i - 1 = 0")
    case True
    then have "i = 1" by simp
    then show ?thesis using Suc.prems
      by (subst Log_ReadRec_loop.simps) (simp add: upd_conv_take_nth_drop)
  next
    case False
    have n: "unat (i - 1) = n" using Suc.hyps(2) Suc.prems(1) by (simp add: unat_minus_one)
    have ui: "unat i = Suc n" using Suc.hyps(2) by simp
    have klt: "k < length dst" using Suc.prems ui by simp
    have "Log_ReadRec_loop ee i a k dst = Log_ReadRec_loop ee (i - 1) (a + 1) (k + 1) (dst[k := ee a])"
      using False by (subst Log_ReadRec_loop.simps) (simp add: Let_def)
    also have "\<dots> = (a + 1 + n, k + 1 + n,
        take (k + 1) (dst[k := ee a]) @ map ee [a + 1 ..< a + 1 + n] @ drop (k + 1 + n) (dst[k := ee a]))"
      using Suc.hyps(1)[of "i - 1" "k + 1" "dst[k := ee a]" "a + 1"] n False Suc.prems ui by simp
    also have "take (k + 1) (dst[k := ee a]) = take k dst @ [ee a]"
      using klt by (simp add: take_Suc_conv_app_nth)
    also have "drop (k + 1 + n) (dst[k := ee a]) = drop (k + 1 + n) dst"
      by simp
    finally have "Log_ReadRec_loop ee i a k dst =
        (a + 1 + n, k + 1 + n,
         (take k dst @ [ee a]) @ map ee [a + 1 ..< a + 1 + n] @ drop (k + 1 + n) dst)" .
    moreover have "[a ..< a + unat i] = a # [a + 1 ..< a + 1 + n]"
      using ui by (simp add: upt_conv_Cons del: upt_Suc)
    ultimately show ?thesis
      using ui by (simp del: upt_Suc)
  qed
qed

lemma strip_flag_slot_bytes:
  assumes "2 \<le> rec_size c"
  shows "strip_flag (slot_bytes c ee r) =
     map ee [slot_addr c r ..< slot_addr c r + (rec_size c - 1)] @
       [NOT LOG_FLAG_MASK AND ee (slot_addr c r + (rec_size c - 1))]"
proof -
  obtain n where n: "rec_size c = Suc n" using assms by (cases "rec_size c") auto
  have "NOT LOG_FLAG_MASK = (0x7F :: byte)" by (simp add: LOG_FLAG_MASK_def)
  then show ?thesis
    by (simp add: strip_flag_def slot_bytes_def n butlast_append ac_simps)
qed

lemma Log_ReadRec_eq:
  assumes "valid_cfg c" "rec_size c \<le> length dst"
  shows "Log_ReadRec c ee dst r = strip_flag (slot_bytes c ee (unat r)) @ drop (rec_size c) dst"
proof -
  let ?i = "of_nat (rec_size c) - 1 :: byte"
  have S: "2 \<le> rec_size c" "rec_size c \<le> 255" using assms by (simp_all add: valid_cfg_def)
  have ui: "unat ?i = rec_size c - 1"
    using S by (simp add: unat_sub word_le_nat_alt unat_of_nat)
  then have i0: "?i \<noteq> 0" using S by (metis unat_0 diff_is_0_eq not_less_eq_eq numeral_2_eq_2 One_nat_def)
  have a: "start_addr c + unat r * rec_size c = slot_addr c (unat r)" by (simp add: slot_addr_def)
  have "Log_ReadRec_loop ee ?i (slot_addr c (unat r)) 0 dst =
      (slot_addr c (unat r) + (rec_size c - 1), rec_size c - 1,
       map ee [slot_addr c (unat r) ..< slot_addr c (unat r) + (rec_size c - 1)] @ drop (rec_size c - 1) dst)"
    using Log_ReadRec_loop_eq [OF i0, of 0 dst ee "slot_addr c (unat r)"] ui assms S by simp
  moreover have "(xs @ drop (rec_size c - 1) dst)[rec_size c - 1 := x] = xs @ [x] @ drop (rec_size c) dst"
    if "length xs = rec_size c - 1" for xs x
  proof -
    have "drop (rec_size c - 1) dst = dst ! (rec_size c - 1) # drop (rec_size c) dst"
      using assms S by (metis Cons_nth_drop_Suc Suc_diff_1 Suc_le_lessD numeral_2_eq_2 Suc_le_eq less_le_trans zero_less_Suc)
    then show ?thesis using that by (simp add: list_update_append)
  qed
  ultimately show ?thesis
    using S by (simp add: Log_ReadRec_def a strip_flag_slot_bytes Let_def)
qed

lemma strip_flag_length: "length (strip_flag xs) = Suc (length xs - 1)"
  by (simp add: strip_flag_def)

lemma strip_flag_last_less: "strip_flag xs ! (length xs - 1) < 0x80"
proof -
  have "last xs AND 0x7F \<le> (0x7F :: byte)" by (rule word_and_le1)
  then have "last xs AND 0x7F < (0x80 :: byte)" by (simp add: word_le_nat_alt word_less_nat_alt)
  then show ?thesis by (simp add: strip_flag_def nth_append)
qed

lemma Log_ReadRec_delivers:
  assumes "valid_cfg c" "rec_size c \<le> length dst"
  shows "delivers c ee dst (Log_ReadRec c ee dst r) (unat r)"
proof -
  have S: "2 \<le> rec_size c" using assms by (simp add: valid_cfg_def)
  have len: "length (strip_flag (slot_bytes c ee (unat r))) = rec_size c"
    using S by (simp add: strip_flag_length slot_bytes_def)
  have "strip_flag (slot_bytes c ee (unat r)) ! (rec_size c - 1) < 0x80"
    using strip_flag_last_less [of "slot_bytes c ee (unat r)"] by (simp add: slot_bytes_def)
  then show ?thesis
    using assms S len by (simp add: delivers_def Log_ReadRec_eq nth_append)
qed

text \<open>
  Claim C10.  Every read call that delivers a record stores exactly \<open>rec_size\<close>
  bytes at the destination: the bytes of the slot it selects, with bit 7 of the
  last byte cleared, so that the delivered last byte is below \<open>0x80\<close> whatever
  the medium holds.  This holds for the record reader at every slot index, for
  \<^verbatim>\<open>Log_ReadFirst\<close>, \<^verbatim>\<open>Log_ReadLast\<close> and \<^verbatim>\<open>Log_ReadCur\<close>, and for
  \<^verbatim>\<open>Log_ReadNext\<close> and \<^verbatim>\<open>Log_ReadPrev\<close> when they return nonzero.
\<close>

theorem read_delivers_slot:
  assumes "valid_cfg c" "rec_size c \<le> length dst"
  shows "delivers c ee dst (Log_ReadRec c ee dst r) (unat r)
    \<and> delivers c ee dst (snd (Log_ReadFirst c ee s dst)) (unat (Log_CurReadRec (fst (Log_ReadFirst c ee s dst))))
    \<and> delivers c ee dst (snd (Log_ReadLast c ee s dst)) (unat (Log_CurReadRec (fst (Log_ReadLast c ee s dst))))
    \<and> delivers c ee dst (Log_ReadCur c ee s dst) (unat (Log_CurReadRec s))
    \<and> (fst (Log_ReadNext c ee s dst) \<noteq> 0 \<longrightarrow>
         delivers c ee dst (snd (snd (Log_ReadNext c ee s dst)))
           (unat (Log_CurReadRec (fst (snd (Log_ReadNext c ee s dst))))))
    \<and> (fst (Log_ReadPrev c ee s dst) \<noteq> 0 \<longrightarrow>
         delivers c ee dst (snd (snd (Log_ReadPrev c ee s dst)))
           (unat (Log_CurReadRec (fst (snd (Log_ReadPrev c ee s dst))))))"
  using Log_ReadRec_delivers [OF assms]
  by (simp add: Log_ReadFirst_def Log_ReadLast_def Log_ReadCur_def Log_ReadNext_def Log_ReadPrev_def Let_def)

theorem read_delivers_slot_witness:
  "valid_cfg cfg43 \<and> rec_size cfg43 \<le> length [0, 0, 0 :: byte]
   \<and> fst (Log_ReadNext cfg43 ring7 (log_at 3 0 1) [0, 0, 0]) \<noteq> 0
   \<and> fst (Log_ReadPrev cfg43 ring7 (log_at 3 0 1) [0, 0, 0]) \<noteq> 0
   \<and> delivers cfg43 ring7 [0, 0, 0] (Log_ReadRec cfg43 ring7 [0, 0, 0] 3) 3
   \<and> Log_ReadRec cfg43 ring7 [0, 0, 0] 3 = [4, 4, 4]
   \<and> delivers cfg43 ring7 [0, 0, 0] (snd (snd (Log_ReadNext cfg43 ring7 (log_at 3 0 1) [0, 0, 0]))) 2
   \<and> delivers cfg43 ring7 [0, 0, 0] (snd (snd (Log_ReadPrev cfg43 ring7 (log_at 3 0 1) [0, 0, 0]))) 0"
proof -
  have h: "valid_cfg cfg43" "rec_size cfg43 \<le> length [0, 0, 0 :: byte]"
    by simp_all
  have n: "Log_ReadNext cfg43 ring7 (log_at 3 0 1) [0, 0, 0] = (1, log_at 3 0 2, [7, 7, 7])"
    and p: "Log_ReadPrev cfg43 ring7 (log_at 3 0 1) [0, 0, 0] = (1, log_at 3 0 0, [5, 5, 5])"
    and r: "Log_ReadRec cfg43 ring7 [0, 0, 0] 3 = [4, 4, 4]"
    by (simp_all add: run_eval)
  have u: "Log_CurReadRec (log_at 3 0 2) = 2" "Log_CurReadRec (log_at 3 0 0) = 0"
    by (simp_all add: log_at_def)
  show ?thesis
    using h read_delivers_slot [OF h, of ring7 3 "log_at 3 0 1"]
    by (simp add: n p r u)
qed

subsection \<open>Cursor traversal\<close>

lemma read_next_prev_eq:
  assumes "valid_cfg c" "unat (Log_CurReadRec s) < recs c" "rec_size c \<le> length dst"
  shows "Log_ReadNext c ee s dst =
      (let cand = (unat (Log_CurReadRec s) + 1) mod recs c
       in if cand = unat (Log_CurRec s) then (0, s, dst)
          else (1, s\<lparr>Log_CurReadRec := of_nat cand\<rparr>,
                strip_flag (slot_bytes c ee cand) @ drop (rec_size c) dst))
    \<and> Log_ReadPrev c ee s dst =
      (let cand = (unat (Log_CurReadRec s) + recs c - 1) mod recs c
       in if cand = unat (Log_CurRec s) then (0, s, dst)
          else (1, s\<lparr>Log_CurReadRec := of_nat cand\<rparr>,
                strip_flag (slot_bytes c ee cand) @ drop (rec_size c) dst))"
proof -
  have N: "2 \<le> recs c" "recs c \<le> 255" using assms by (simp_all add: valid_cfg_def)
  define nx where "nx = (unat (Log_CurReadRec s) + 1) mod recs c"
  define pv where "pv = (unat (Log_CurReadRec s) + recs c - 1) mod recs c"
  have f: "unat (ring_fwd c (Log_CurReadRec s)) = nx"
    unfolding nx_def using N assms(2) by (rule ring_fwd_unat)
  have b: "unat (ring_bwd c (Log_CurReadRec s)) = pv"
    unfolding pv_def using N assms(2) by (rule ring_bwd_unat)
  have eqf: "ring_fwd c (Log_CurReadRec s) = Log_CurRec s \<longleftrightarrow> nx = unat (Log_CurRec s)"
    using f by (metis word_unat_eq_iff)
  have eqb: "ring_bwd c (Log_CurReadRec s) = Log_CurRec s \<longleftrightarrow> pv = unat (Log_CurRec s)"
    using b by (metis word_unat_eq_iff)
  have wf: "ring_fwd c (Log_CurReadRec s) = of_nat nx"
    unfolding f [symmetric] by simp
  have wb: "ring_bwd c (Log_CurReadRec s) = of_nat pv"
    unfolding b [symmetric] by simp
  have "Log_ReadNext c ee s dst =
      (if nx = unat (Log_CurRec s) then (0, s, dst)
       else (1, s\<lparr>Log_CurReadRec := of_nat nx\<rparr>,
             strip_flag (slot_bytes c ee nx) @ drop (rec_size c) dst))"
    using assms(1,3) f by (simp add: Log_ReadNext_def Let_def eqf Log_ReadRec_eq) (simp add: wf)
  moreover have "Log_ReadPrev c ee s dst =
      (if pv = unat (Log_CurRec s) then (0, s, dst)
       else (1, s\<lparr>Log_CurReadRec := of_nat pv\<rparr>,
             strip_flag (slot_bytes c ee pv) @ drop (rec_size c) dst))"
    using assms(1,3) b by (simp add: Log_ReadPrev_def Let_def eqb Log_ReadRec_eq) (simp add: wb)
  ultimately show ?thesis
    unfolding nx_def pv_def Let_def by (rule conjI)
qed

text \<open>
  Claim C4.  \<^verbatim>\<open>Log_ReadNext\<close> computes the candidate \<open>read_cursor + 1 (mod N)\<close>
  and \<^verbatim>\<open>Log_ReadPrev\<close> the candidate \<open>read_cursor - 1 (mod N)\<close>.  If the
  candidate is the write cursor the call returns 0 and leaves the read cursor
  and the destination buffer as they were; otherwise it makes the candidate the
  read cursor, decodes that slot into the destination and returns 1.
\<close>

theorem read_next_prev_boundary:
  assumes "valid_cfg c" "unat (Log_CurReadRec s) < recs c" "rec_size c \<le> length dst"
  shows "Log_ReadNext c ee s dst =
      (let cand = (unat (Log_CurReadRec s) + 1) mod recs c
       in if cand = unat (Log_CurRec s) then (0, s, dst)
          else (1, s\<lparr>Log_CurReadRec := of_nat cand\<rparr>,
                strip_flag (slot_bytes c ee cand) @ drop (rec_size c) dst))
    \<and> Log_ReadPrev c ee s dst =
      (let cand = (unat (Log_CurReadRec s) + recs c - 1) mod recs c
       in if cand = unat (Log_CurRec s) then (0, s, dst)
          else (1, s\<lparr>Log_CurReadRec := of_nat cand\<rparr>,
                strip_flag (slot_bytes c ee cand) @ drop (rec_size c) dst))"
  using assms by (rule read_next_prev_eq)

theorem read_next_prev_boundary_witness:
  "valid_cfg cfg43 \<and> unat (Log_CurReadRec (log_at 3 0 2)) < recs cfg43
   \<and> rec_size cfg43 \<le> length [0, 0, 0 :: byte]
   \<and> Log_ReadNext cfg43 ring7 (log_at 3 0 2) [0, 0, 0] = (0, log_at 3 0 2, [0, 0, 0])
   \<and> Log_ReadPrev cfg43 ring7 (log_at 3 0 2) [0, 0, 0] = (1, log_at 3 0 1, [6, 6, 6])"
proof -
  have h: "valid_cfg cfg43" "unat (Log_CurReadRec (log_at 3 0 2)) < recs cfg43"
    "rec_size cfg43 \<le> length [0, 0, 0 :: byte]"
    by (simp_all add: log_at_def)
  have v: "strip_flag (slot_bytes cfg43 ring7 1) = [6, 6, 6]"
    by (simp add: strip_flag_def slot_bytes_def slot_addr_def ring7_def ee_of_list_def upt_conv_Cons)
  show ?thesis
    using h read_next_prev_boundary [OF h, of ring7]
    by (simp add: log_at_def v v [unfolded One_nat_def] Let_def)
qed

lemma ring_from_eq:
  assumes "w < recs c"
  shows "ring_from c w = map (\<lambda>j. (w + j) mod recs c) [0 ..< recs c]"
  unfolding ring_from_def
  by (rule nth_equalityI) (simp_all add: nth_rotate add.commute)

lemma length_record_at: "2 \<le> rec_size c \<Longrightarrow> length (record_at c ee r) = rec_size c"
  by (simp add: record_at_def strip_flag_length slot_bytes_def)

lemma byte_unat_of_nat: "n < recs c \<Longrightarrow> recs c \<le> 255 \<Longrightarrow> unat (of_nat n :: byte) = n"
  by (simp add: unat_of_nat)

lemma Log_run_append:
  "Log_run c (xs @ ys) w =
     (case Log_run c xs w of
        None \<Rightarrow> None
      | Some (obs, w1) \<Rightarrow>
         (case Log_run c ys w1 of None \<Rightarrow> None | Some (obs2, w2) \<Rightarrow> Some (obs @ obs2, w2)))"
proof (induction xs arbitrary: w)
  case Nil
  show ?case by (simp split: option.split)
next
  case (Cons x xs)
  show ?case by (simp add: Cons.IH split: option.split prod.split)
qed

lemma ring_offset_neq:
  assumes "w < N" "0 < d" "d < N"
  shows "(w + d) mod N \<noteq> (w :: nat)"
proof (cases "w + d < N")
  case True
  then show ?thesis using assms by simp
next
  case False
  then have "(w + d) mod N = (w + d - N) mod N" by (simp add: le_mod_geq)
  also have "\<dots> = w + d - N" using assms by simp
  finally show ?thesis using assms False by simp
qed

lemma next_run:
  assumes c: "valid_cfg c" and wN: "w < recs c"
  shows "unat (Log_CurRec s) = w \<Longrightarrow> 1 \<le> j \<Longrightarrow> j + k < recs c \<Longrightarrow> length dst = rec_size c \<Longrightarrow>
     Log_CurReadRec s = of_nat ((w + j) mod recs c) \<Longrightarrow>
     Log_run c (replicate k ReadNext) (s, m, dst) =
       Some (map (\<lambda>i. (Some 1, record_at c (cells m) ((w + i) mod recs c))) [j + 1 ..< j + k + 1],
             s\<lparr>Log_CurReadRec := of_nat ((w + j + k) mod recs c)\<rparr>, m,
             if k = 0 then dst else record_at c (cells m) ((w + j + k) mod recs c))"
proof (induction k arbitrary: j s dst)
  case 0
  then show ?case by simp
next
  case (Suc k)
  have N: "2 \<le> recs c" "recs c \<le> 255" and S: "2 \<le> rec_size c"
    using c by (simp_all add: valid_cfg_def)
  let ?r = "(w + j) mod recs c"
  let ?r1 = "(w + (j + 1)) mod recs c"
  have "?r < recs c" using N by simp
  then have ur: "unat (Log_CurReadRec s) = ?r"
    unfolding Suc.prems(5) using N(2) by (rule byte_unat_of_nat)
  have cand: "(unat (Log_CurReadRec s) + 1) mod recs c = ?r1"
    unfolding ur by (simp add: mod_Suc_eq)
  have ne: "?r1 \<noteq> unat (Log_CurRec s)"
    unfolding Suc.prems(1) using wN Suc.prems(3) by (intro ring_offset_neq) simp_all
  let ?s1 = "s\<lparr>Log_CurReadRec := of_nat ?r1\<rparr>"
  let ?d1 = "record_at c (cells m) ?r1"
  have lt: "unat (Log_CurReadRec s) < recs c" using ur N by simp
  have len: "rec_size c \<le> length dst" using Suc.prems(4) by simp
  have step: "Log_ReadNext c (cells m) s dst = (1, ?s1, ?d1)"
    using conjunct1 [OF read_next_prev_eq [OF c lt len, of "cells m"]] ne Suc.prems(4)
    unfolding Let_def cand by (simp add: record_at_def)
  have p: "unat (Log_CurRec ?s1) = w" "1 \<le> j + 1" "j + 1 + k < recs c" "length ?d1 = rec_size c"
    "Log_CurReadRec ?s1 = of_nat ((w + (j + 1)) mod recs c)"
    using Suc.prems(1,3) S by (simp_all add: length_record_at)
  note ih = Suc.IH [OF p]
  have up: "[j + 1 ..< j + Suc k + 1] = (j + 1) # [j + 1 + 1 ..< j + 1 + k + 1]"
    by (simp add: upt_conv_Cons del: upt_Suc)
  show ?case
    unfolding up using ih step
    by (simp add: add.assoc del: upt_Suc)
qed


lemma ring_back_step:
  assumes "0 < N" "1 \<le> j"
  shows "((w + j) mod N + N - 1) mod N = (w + (j - 1)) mod (N :: nat)"
proof -
  have "(w + j) mod N + N - 1 = (w + j) mod N + (N - 1)" using assms by simp
  then have "((w + j) mod N + N - 1) mod N = ((w + j) + (N - 1)) mod N"
    by (simp add: mod_add_left_eq)
  also have "(w + j) + (N - 1) = (w + (j - 1)) + N" using assms by simp
  finally show ?thesis by simp
qed

lemma prev_run:
  assumes c: "valid_cfg c" and wN: "w < recs c"
  shows "unat (Log_CurRec s) = w \<Longrightarrow> k < j \<Longrightarrow> j < recs c \<Longrightarrow> length dst = rec_size c \<Longrightarrow>
     Log_CurReadRec s = of_nat ((w + j) mod recs c) \<Longrightarrow>
     Log_run c (replicate k ReadPrev) (s, m, dst) =
       Some (map (\<lambda>i. (Some 1, record_at c (cells m) ((w + (j - i)) mod recs c))) [1 ..< k + 1],
             s\<lparr>Log_CurReadRec := of_nat ((w + (j - k)) mod recs c)\<rparr>, m,
             if k = 0 then dst else record_at c (cells m) ((w + (j - k)) mod recs c))"
proof (induction k arbitrary: j s dst)
  case 0
  then show ?case by simp
next
  case (Suc k)
  have N: "2 \<le> recs c" "recs c \<le> 255" "0 < recs c" and S: "2 \<le> rec_size c"
    using c by (simp_all add: valid_cfg_def)
  let ?r = "(w + j) mod recs c"
  let ?r1 = "(w + (j - 1)) mod recs c"
  have j1: "1 \<le> j" using Suc.prems(2) by simp
  have "?r < recs c" using N by simp
  then have ur: "unat (Log_CurReadRec s) = ?r"
    unfolding Suc.prems(5) using N(2) by (rule byte_unat_of_nat)
  have cand: "(unat (Log_CurReadRec s) + recs c - 1) mod recs c = ?r1"
    unfolding ur using N(3) j1 by (rule ring_back_step)
  have ne: "?r1 \<noteq> unat (Log_CurRec s)"
    unfolding Suc.prems(1) using wN Suc.prems(2,3) by (intro ring_offset_neq) simp_all
  let ?s1 = "s\<lparr>Log_CurReadRec := of_nat ?r1\<rparr>"
  let ?d1 = "record_at c (cells m) ?r1"
  have lt: "unat (Log_CurReadRec s) < recs c" using ur N by simp
  have len: "rec_size c \<le> length dst" using Suc.prems(4) by simp
  have step: "Log_ReadPrev c (cells m) s dst = (1, ?s1, ?d1)"
    using conjunct2 [OF read_next_prev_eq [OF c lt len, of "cells m"]] ne Suc.prems(4)
    unfolding Let_def cand by (simp add: record_at_def)
  have p: "unat (Log_CurRec ?s1) = w" "k < j - 1" "j - 1 < recs c" "length ?d1 = rec_size c"
    "Log_CurReadRec ?s1 = of_nat ((w + (j - 1)) mod recs c)"
    using Suc.prems(1,2,3) S by (simp_all add: length_record_at)
  note ih = Suc.IH [OF p]
  have up: "[1 ..< Suc k + 1] = 1 # map Suc [1 ..< k + 1]"
    by (simp add: upt_conv_Cons map_Suc_upt del: upt_Suc)
  have sub: "j - 1 - i = j - Suc i" for i by simp
  show ?case
    unfolding up using ih step
    by (simp add: comp_def sub del: upt_Suc)
qed


lemma forward_traversal:
  assumes c: "valid_cfg c" and w: "unat (Log_CurRec s) = w" "w < recs c"
    and len: "length dst = rec_size c"
  shows "Log_run c (forward_calls c) (s, m, dst) =
     Some ((None, record_at c (cells m) ((w + 1) mod recs c))
             # map (\<lambda>i. (Some 1, record_at c (cells m) ((w + i) mod recs c))) [2 ..< recs c]
             @ [(Some 0, record_at c (cells m) ((w + (recs c - 1)) mod recs c))],
           s\<lparr>Log_CurReadRec := of_nat ((w + (recs c - 1)) mod recs c)\<rparr>, m,
           record_at c (cells m) ((w + (recs c - 1)) mod recs c))"
proof -
  have N: "2 \<le> recs c" "recs c \<le> 255" "0 < recs c" and S: "2 \<le> rec_size c"
    using c by (simp_all add: valid_cfg_def)
  let ?R = "\<lambda>i. record_at c (cells m) ((w + i) mod recs c)"
  let ?s1 = "s\<lparr>Log_CurReadRec := of_nat ((w + 1) mod recs c)\<rparr>"
  let ?s2 = "s\<lparr>Log_CurReadRec := of_nat ((w + (recs c - 1)) mod recs c)\<rparr>"
  have calls: "forward_calls c = [ReadFirst] @ replicate (recs c - 2) ReadNext @ [ReadNext]"
  proof -
    have "recs c - 1 = Suc (recs c - 2)" using N by simp
    then show ?thesis by (simp add: forward_calls_def replicate_append_same)
  qed
  have h: "unat (ring_fwd c (Log_CurRec s)) = (w + 1) mod recs c"
    using ring_fwd_unat [OF N(1,2), of "Log_CurRec s"] w by simp
  have rf: "ring_fwd c (Log_CurRec s) = of_nat ((w + 1) mod recs c)"
    unfolding h [symmetric] by simp
  have rr: "Log_ReadRec c (cells m) dst (ring_fwd c (Log_CurRec s)) = ?R 1"
    using len by (simp add: Log_ReadRec_eq [OF c] h record_at_def)
  have rfst: "Log_ReadFirst c (cells m) s dst = (?s1, ?R 1)"
    unfolding Log_ReadFirst_def Let_def rr by (simp add: rf)
  have first: "Log_run c [ReadFirst] (s, m, dst) = Some ([(None, ?R 1)], ?s1, m, ?R 1)"
    by (simp add: rfst)
  have p: "unat (Log_CurRec ?s1) = w" "1 \<le> (1 :: nat)" "1 + (recs c - 2) < recs c"
    "length (?R 1) = rec_size c" "Log_CurReadRec ?s1 = of_nat ((w + 1) mod recs c)"
    using w N S by (simp_all add: length_record_at)
  have e: "w + 1 + (recs c - 2) = w + (recs c - 1)" using N by simp
  have nexts: "Log_run c (replicate (recs c - 2) ReadNext) (?s1, m, ?R 1) =
      Some (map (\<lambda>i. (Some 1, ?R i)) [2 ..< recs c], ?s2, m, ?R (recs c - 1))"
  proof -
    have a: "1 + (recs c - 2) + 1 = recs c" using N by simp
    have e2: "[1 + 1 ..< 1 + (recs c - 2) + 1] = [2 ..< recs c]"
      unfolding a by (simp add: numeral_2_eq_2 del: upt_Suc)
    have d: "(if recs c - 2 = 0 then ?R 1 else ?R (recs c - 1)) = ?R (recs c - 1)"
    proof (cases "recs c - 2 = 0")
      case True
      then have "recs c - 1 = 1" using N by simp
      then show ?thesis by simp
    next
      case False
      then show ?thesis by simp
    qed
    note nr = next_run [OF c w(2) p, of m, unfolded e2 e d]
    show ?thesis
      using nr by (simp del: upt_Suc)
  qed
  have lt2: "(w + (recs c - 1)) mod recs c < recs c" using N by simp
  have ur: "unat (Log_CurReadRec ?s2) = (w + (recs c - 1)) mod recs c"
  proof -
    have u: "Log_CurReadRec ?s2 = of_nat ((w + (recs c - 1)) mod recs c)" by simp
    show ?thesis unfolding u using lt2 N(2) by (rule byte_unat_of_nat)
  qed
  have "(w + (recs c - 1)) + 1 = w + recs c" using N by simp
  then have cand: "((w + (recs c - 1)) mod recs c + 1) mod recs c = w"
    using w(2) by (simp add: mod_Suc_eq)
  have lt: "unat (Log_CurReadRec ?s2) < recs c" using ur N by simp
  have l2: "rec_size c \<le> length (?R (recs c - 1))" using S by (simp add: length_record_at)
  have last: "Log_run c [ReadNext] (?s2, m, ?R (recs c - 1)) =
      Some ([(Some 0, ?R (recs c - 1))], ?s2, m, ?R (recs c - 1))"
    using conjunct1 [OF read_next_prev_eq [OF c lt l2, of "cells m"]] w(1)
    unfolding Let_def ur cand by simp
  show ?thesis
    unfolding calls
    by (simp only: Log_run_append first nexts last option.case prod.case) simp
qed


lemma backward_traversal:
  assumes c: "valid_cfg c" and w: "unat (Log_CurRec s) = w" "w < recs c"
    and len: "length dst = rec_size c"
  shows "Log_run c (backward_calls c) (s, m, dst) =
     Some ((None, record_at c (cells m) ((w + (recs c - 1)) mod recs c))
             # map (\<lambda>i. (Some 1, record_at c (cells m) ((w + (recs c - 1 - i)) mod recs c))) [1 ..< recs c - 1]
             @ [(Some 0, record_at c (cells m) ((w + 1) mod recs c))],
           s\<lparr>Log_CurReadRec := of_nat ((w + 1) mod recs c)\<rparr>, m,
           record_at c (cells m) ((w + 1) mod recs c))"
proof -
  have N: "2 \<le> recs c" "recs c \<le> 255" "0 < recs c" and S: "2 \<le> rec_size c"
    using c by (simp_all add: valid_cfg_def)
  let ?R = "\<lambda>i. record_at c (cells m) ((w + i) mod recs c)"
  let ?s1 = "s\<lparr>Log_CurReadRec := of_nat ((w + (recs c - 1)) mod recs c)\<rparr>"
  let ?s2 = "s\<lparr>Log_CurReadRec := of_nat ((w + 1) mod recs c)\<rparr>"
  have calls: "backward_calls c = [ReadLast] @ replicate (recs c - 2) ReadPrev @ [ReadPrev]"
  proof -
    have "recs c - 1 = Suc (recs c - 2)" using N by simp
    then show ?thesis by (simp add: backward_calls_def replicate_append_same)
  qed
  have wn: "w + recs c - 1 = w + (recs c - 1)" using N by simp
  have h: "unat (ring_bwd c (Log_CurRec s)) = (w + (recs c - 1)) mod recs c"
    using ring_bwd_unat [OF N(1,2), of "Log_CurRec s"] w unfolding wn [symmetric] by simp
  have rf: "ring_bwd c (Log_CurRec s) = of_nat ((w + (recs c - 1)) mod recs c)"
    unfolding h [symmetric] by simp
  have rr: "Log_ReadRec c (cells m) dst (ring_bwd c (Log_CurRec s)) = ?R (recs c - 1)"
    using len by (simp add: Log_ReadRec_eq [OF c] h record_at_def)
  have rlst: "Log_ReadLast c (cells m) s dst = (?s1, ?R (recs c - 1))"
    unfolding Log_ReadLast_def Let_def rr by (simp add: rf)
  have first: "Log_run c [ReadLast] (s, m, dst) = Some ([(None, ?R (recs c - 1))], ?s1, m, ?R (recs c - 1))"
    by (simp add: rlst)
  have p: "unat (Log_CurRec ?s1) = w" "recs c - 2 < recs c - 1" "recs c - 1 < recs c"
    "length (?R (recs c - 1)) = rec_size c"
    "Log_CurReadRec ?s1 = of_nat ((w + (recs c - 1)) mod recs c)"
    using w N S by (simp_all add: length_record_at)
  have prevs: "Log_run c (replicate (recs c - 2) ReadPrev) (?s1, m, ?R (recs c - 1)) =
      Some (map (\<lambda>i. (Some 1, ?R (recs c - 1 - i))) [1 ..< recs c - 1], ?s2, m, ?R 1)"
  proof -
    have a: "recs c - 2 + 1 = recs c - 1" using N by simp
    have b: "recs c - 1 - (recs c - 2) = 1" using N by simp
    have d: "(if recs c - 2 = 0 then ?R (recs c - 1) else ?R 1) = ?R 1"
    proof (cases "recs c - 2 = 0")
      case True
      then have "recs c - 1 = 1" using N by simp
      then show ?thesis by simp
    next
      case False
      then show ?thesis by simp
    qed
    note pr = prev_run [OF c w(2) p, of m, unfolded a b d]
    show ?thesis
      using pr by (simp del: upt_Suc)
  qed
  have lt2: "(w + 1) mod recs c < recs c" using N by simp
  have ur: "unat (Log_CurReadRec ?s2) = (w + 1) mod recs c"
  proof -
    have u: "Log_CurReadRec ?s2 = of_nat ((w + 1) mod recs c)" by simp
    show ?thesis unfolding u using lt2 N(2) by (rule byte_unat_of_nat)
  qed
  have cand: "((w + 1) mod recs c + recs c - 1) mod recs c = w"
    using ring_back_step [OF N(3), of 1 w] w(2) by simp
  have lt: "unat (Log_CurReadRec ?s2) < recs c" using ur N by simp
  have l2: "rec_size c \<le> length (?R 1)" using S by (simp add: length_record_at)
  have last: "Log_run c [ReadPrev] (?s2, m, ?R 1) = Some ([(Some 0, ?R 1)], ?s2, m, ?R 1)"
    using conjunct2 [OF read_next_prev_eq [OF c lt l2, of "cells m"]] w(1)
    unfolding Let_def ur cand by simp
  show ?thesis
    unfolding calls
    by (simp only: Log_run_append first prevs last option.case prod.case) simp
qed


lemma tl_ring_from:
  assumes "w < recs c"
  shows "tl (ring_from c w) = map (\<lambda>j. (w + j) mod recs c) [1 ..< recs c]"
  unfolding ring_from_eq [OF assms] by (simp add: map_tl [symmetric] del: upt_Suc)

lemma delivered_forward:
  assumes c: "valid_cfg c" and w: "unat (Log_CurRec s) = w" "w < recs c"
    and len: "length dst = rec_size c"
  shows "map_option (delivered \<circ> fst) (Log_run c (forward_calls c) (s, m, dst)) =
     Some (map (record_at c (cells m)) (tl (ring_from c w)))"
proof -
  have N: "2 \<le> recs c" using c by (simp add: valid_cfg_def)
  have up: "[1 ..< recs c] = 1 # [2 ..< recs c]"
    using N by (simp add: upt_conv_Cons numeral_2_eq_2 del: upt_Suc)
  show ?thesis
    unfolding forward_traversal [OF c w len] tl_ring_from [OF w(2)] up
    by (simp add: delivered_def comp_def del: upt_Suc)
qed

lemma delivered_backward:
  assumes c: "valid_cfg c" and w: "unat (Log_CurRec s) = w" "w < recs c"
    and len: "length dst = rec_size c"
  shows "map_option (delivered \<circ> fst) (Log_run c (backward_calls c) (s, m, dst)) =
     Some (rev (map (record_at c (cells m)) (tl (ring_from c w))))"
proof -
  have N: "2 \<le> recs c" using c by (simp add: valid_cfg_def)
  let ?R = "\<lambda>i. record_at c (cells m) ((w + i) mod recs c)"
  have r: "rev (map ?R [1 ..< recs c]) = map (\<lambda>i. ?R (recs c - 1 - i)) [0 ..< recs c - 1]"
  proof (rule nth_equalityI)
    show "length (rev (map ?R [1 ..< recs c])) = length (map (\<lambda>i. ?R (recs c - 1 - i)) [0 ..< recs c - 1])"
      by simp
  next
    fix i assume "i < length (rev (map ?R [1 ..< recs c]))"
    then have i: "i < recs c - 1" by simp
    have e: "1 + (recs c - 1 - Suc i) = recs c - 1 - i" using i by simp
    have "1 + (recs c - 1 - Suc i) < recs c" using i by simp
    then have n: "[1 ..< recs c] ! (recs c - 1 - Suc i) = recs c - 1 - i"
      unfolding e [symmetric] by (rule nth_upt)
    have l: "length (map ?R [1 ..< recs c]) = recs c - 1" by simp
    have k: "recs c - 1 - Suc i < length [1 ..< recs c]" using i by simp
    have "rev (map ?R [1 ..< recs c]) ! i = map ?R [1 ..< recs c] ! (recs c - 1 - Suc i)"
      using i by (simp only: rev_nth l)
    also have "\<dots> = ?R (recs c - 1 - i)"
      using k by (simp only: nth_map n)
    also have "\<dots> = map (\<lambda>i. ?R (recs c - 1 - i)) [0 ..< recs c - 1] ! i"
      using i by (simp del: upt_Suc)
    finally show "rev (map ?R [1 ..< recs c]) ! i = map (\<lambda>i. ?R (recs c - 1 - i)) [0 ..< recs c - 1] ! i" .
  qed
  have up: "[0 ..< recs c - 1] = 0 # [1 ..< recs c - 1]"
    using N by (simp add: upt_conv_Cons del: upt_Suc)
  have t: "map (record_at c (cells m)) (tl (ring_from c w)) = map ?R [1 ..< recs c]"
    unfolding tl_ring_from [OF w(2)] by (simp add: comp_def del: upt_Suc)
  have "delivered ((None, ?R (recs c - 1))
          # map (\<lambda>i. (Some 1, ?R (recs c - 1 - i))) [1 ..< recs c - 1] @ [(Some 0, ?R 1)])
      = ?R (recs c - 1 - 0) # map (\<lambda>i. ?R (recs c - 1 - i)) [1 ..< recs c - 1]"
    by (simp add: delivered_def comp_def del: upt_Suc)
  also have "\<dots> = map (\<lambda>i. ?R (recs c - 1 - i)) [0 ..< recs c - 1]"
    unfolding up by (simp only: list.map)
  also have "\<dots> = rev (map (record_at c (cells m)) (tl (ring_from c w)))"
    unfolding t r ..
  finally show ?thesis
    unfolding backward_traversal [OF c w len] by (simp del: upt_Suc)
qed

subsection \<open>The writer\<close>

lemma ring_step_zero:
  assumes "1 \<le> recs c" "recs c \<le> 256"
  shows "r - (of_nat (recs c) - 1) = (0 :: byte) \<longleftrightarrow> unat r = recs c - 1"
proof -
  have N: "(of_nat (recs c) :: byte) - 1 = of_nat (recs c - 1)" using assms by simp
  have "r - (of_nat (recs c) - 1) = 0 \<longleftrightarrow> (of_nat (unat r) :: byte) = of_nat (recs c - 1)"
    using N by simp
  also have "\<dots> \<longleftrightarrow> unat r = recs c - 1"
    using assms by (intro byte_of_nat_inj) (auto intro: order_less_le_trans [OF unsigned_less])
  finally show ?thesis .
qed

lemma flag_flip_neq: "g XOR LOG_FLAG_MASK \<noteq> (g :: byte)"
proof
  assume "g XOR LOG_FLAG_MASK = g"
  then have "bit (g XOR LOG_FLAG_MASK) 7 = bit g 7" by simp
  then have "bit LOG_FLAG_MASK (7::nat) = False" unfolding bit_xor_iff by blast
  then show False unfolding LOG_FLAG_MASK_def by simp
qed

lemma uint_eq_pred_iff: "2 \<le> n \<Longrightarrow> uint (x :: byte) = int n - 1 \<longleftrightarrow> unat x = n - 1"
proof -
  assume "2 \<le> n"
  then have "int n - 1 = int (n - 1)" by simp
  then show ?thesis by (simp only: uint_nat of_nat_eq_iff)
qed

lemma uint_eq_int_iff: "uint (x :: byte) = int n \<longleftrightarrow> unat x = n"
  by (simp only: uint_nat of_nat_eq_iff)

lemma unat_rec_size_byte:
  "rec_size c \<le> 255 \<Longrightarrow> unat (of_nat (rec_size c) :: byte) = rec_size c"
  by (simp add: unat_of_nat)

lemma Log_Write_last_eq:
  assumes "valid_cfg c"
  shows "Log_Write_last c s m =
     (0,
      s\<lparr>Log_CurRec := ring_fwd c (Log_CurRec s),
        Log_CurFlag := (if unat (Log_CurRec s) = recs c - 1 then Log_CurFlag s XOR LOG_FLAG_MASK else Log_CurFlag s),
        Log_CurReadRec := (if Log_CurReadRec s = ring_fwd c (Log_CurRec s)
                           then (if unat (Log_CurReadRec s) = recs c - 1 then 0 else Log_CurReadRec s + 1)
                           else Log_CurReadRec s),
        wr_i := of_nat (rec_size c)\<rparr>,
      WriteEE m (wr_a s) (Log_CurFlag s OR (Log_RecBuf s ! unat (wr_i s) AND NOT LOG_FLAG_MASK)))"
proof -
  have N: "1 \<le> recs c" "recs c \<le> 256" "recs c \<le> 255" "2 \<le> recs c" using assms by (simp_all add: valid_cfg_def)
  have z: "Log_CurRec s - (of_nat (recs c) - 1) = 0 \<longleftrightarrow> unat (Log_CurRec s) = recs c - 1"
    using N(1,2) by (rule ring_step_zero)
  have u: "uint (Log_CurReadRec s) = int (recs c) - 1 \<longleftrightarrow> unat (Log_CurReadRec s) = recs c - 1"
    using N(4) by (rule uint_eq_pred_iff)
  show ?thesis
  proof (cases "unat (Log_CurRec s) = recs c - 1")
    case True
    then have "Log_CurRec s - (of_nat (recs c) - 1) = 0" using z by simp
    then show ?thesis
      unfolding Log_Write_last_def Let_def ring_fwd_def u using True by simp
  next
    case False
    then have "Log_CurRec s - (of_nat (recs c) - 1) \<noteq> 0" using z by simp
    then show ?thesis
      unfolding Log_Write_last_def Let_def ring_fwd_def u using False by simp
  qed
qed


lemma write_busy: "Log_NoblockingWrite c False src s m = (0, s, m)"
  by (simp add: Log_NoblockingWrite_def)

lemma write_mid:
  assumes "wr_a s \<noteq> 0" "unat (wr_i s) + 1 < rec_size c"
  shows "Log_NoblockingWrite c True src s m =
     (0, s\<lparr>wr_a := wr_a s + 1, wr_i := wr_i s + 1\<rparr>,
      WriteEE m (wr_a s) (Log_RecBuf s ! unat (wr_i s)))"
proof -
  have "unat (wr_i s) \<noteq> rec_size c" "unat (wr_i s) \<noteq> rec_size c - 1" "2 \<le> rec_size c"
    using assms(2) by simp_all
  then have "uint (wr_i s) \<noteq> int (rec_size c)" "uint (wr_i s) \<noteq> int (rec_size c) - 1"
    by (simp_all only: uint_eq_int_iff uint_eq_pred_iff not_False_eq_True)
  then show ?thesis using assms(1) by (simp add: Log_NoblockingWrite_def)
qed

lemma write_last:
  assumes "wr_a s \<noteq> 0" "unat (wr_i s) + 1 = rec_size c" "2 \<le> rec_size c"
  shows "Log_NoblockingWrite c True src s m = Log_Write_last c s m"
proof -
  have "unat (wr_i s) \<noteq> rec_size c" "unat (wr_i s) = rec_size c - 1"
    using assms(2) by simp_all
  then have "uint (wr_i s) \<noteq> int (rec_size c)" "uint (wr_i s) = int (rec_size c) - 1"
    using assms(3) by (simp_all only: uint_eq_int_iff uint_eq_pred_iff not_False_eq_True)
  then show ?thesis using assms(1) by (simp add: Log_NoblockingWrite_def)
qed

lemma write_at_rest:
  assumes "writer_at_rest c s"
  shows "Log_NoblockingWrite c True src s m = Log_Write_test c src (s\<lparr>wr_a := 0\<rparr>) m"
proof (cases "wr_a s = 0")
  case True
  then have e: "s\<lparr>wr_a := 0\<rparr> = s" by (cases s) simp
  show ?thesis unfolding e using True by (simp add: Log_NoblockingWrite_def)
next
  case False
  then show ?thesis using assms by (simp add: Log_NoblockingWrite_def writer_at_rest_def)
qed

lemma polls_end_Nil [simp]: "polls_end c [] s m = (s, m)"
  by (simp add: polls_end_def)

lemma polls_end_Cons:
  "polls_end c ((f, src) # cs) s m =
     (case Log_NoblockingWrite c f src s m of (r, s1, m1) \<Rightarrow> polls_end c cs s1 m1)"
  by (simp add: polls_end_def split: prod.split)

lemma Log_polls_append:
  "Log_polls c (xs @ ys) s m =
     Log_polls c xs s m @ (case polls_end c xs s m of (s1, m1) \<Rightarrow> Log_polls c ys s1 m1)"
proof (induction xs arbitrary: s m)
  case Nil
  show ?case by simp
next
  case (Cons x xs)
  obtain f src where x: "x = (f, src)" by (cases x)
  show ?case by (simp add: x polls_end_Cons Cons.IH split: prod.split)
qed

lemma polls_end_append:
  "polls_end c (xs @ ys) s m = (case polls_end c xs s m of (s1, m1) \<Rightarrow> polls_end c ys s1 m1)"
proof (induction xs arbitrary: s m)
  case Nil
  show ?case by simp
next
  case (Cons x xs)
  obtain f src where x: "x = (f, src)" by (cases x)
  show ?case by (simp add: x polls_end_Cons Cons.IH split: prod.split)
qed

lemma flag_flips_Nil [simp]: "flag_flips c [] s m = 0"
  by (simp add: flag_flips_def)

lemma flag_flips_Cons:
  "flag_flips c ((f, src) # cs) s m =
     (case Log_NoblockingWrite c f src s m of
        (r, s1, m1) \<Rightarrow> (if Log_CurFlag s \<noteq> Log_CurFlag s1 then 1 else 0) + flag_flips c cs s1 m1)"
  by (simp add: flag_flips_def split: prod.split)

lemma flag_flips_append:
  "flag_flips c (xs @ ys) s m =
     flag_flips c xs s m + (case polls_end c xs s m of (s1, m1) \<Rightarrow> flag_flips c ys s1 m1)"
proof (induction xs arbitrary: s m)
  case Nil
  show ?case by simp
next
  case (Cons x xs)
  obtain f src where x: "x = (f, src)" by (cases x)
  show ?case by (simp add: x polls_end_Cons flag_flips_Cons Cons.IH split: prod.split)
qed

lemma busy_polls:
  "filter fst cs = [] \<Longrightarrow> Log_polls c cs s m = map (\<lambda>x. (0, s, m)) cs"
proof (induction cs)
  case Nil
  show ?case by simp
next
  case (Cons x cs)
  obtain f src where x: "x = (f, src)" by (cases x)
  from Cons.prems have "\<not> f" "filter fst cs = []" by (auto simp: x split: if_splits)
  then show ?case using Cons.IH by (simp add: x write_busy)
qed

lemma busy_polls_end: "filter fst cs = [] \<Longrightarrow> polls_end c cs s m = (s, m)"
  by (simp add: polls_end_def busy_polls last_map)

lemma busy_flag_flips: "filter fst cs = [] \<Longrightarrow> flag_flips c cs s m = 0"
proof (induction cs)
  case Nil
  show ?case by simp
next
  case (Cons x cs)
  obtain f src where x: "x = (f, src)" by (cases x)
  from Cons.prems have "\<not> f" "filter fst cs = []" by (auto simp: x split: if_splits)
  then show ?case using Cons.IH by (simp add: x flag_flips_Cons write_busy)
qed

lemma WriteEE_list_Nil [simp]: "WriteEE_list m [] = m"
  by (simp add: WriteEE_list_def)

lemma WriteEE_list_Cons [simp]: "WriteEE_list m ((a, b) # ws) = WriteEE_list (WriteEE m a b) ws"
  by (simp add: WriteEE_list_def)

lemma issued_WriteEE_list: "issued (WriteEE_list m ws) = issued m @ ws"
  by (induction ws arbitrary: m) (auto simp: WriteEE_def)

lemma pending_writes_last:
  assumes "unat (wr_i s) + 1 = rec_size c"
  shows "pending_writes c s =
     [(wr_a s, Log_CurFlag s OR (Log_RecBuf s ! unat (wr_i s) AND NOT LOG_FLAG_MASK))]"
proof -
  have "[unat (wr_i s) ..< rec_size c] = [unat (wr_i s)]" "unat (wr_i s) = rec_size c - 1"
    using assms [symmetric] by simp_all
  then show ?thesis by (simp add: pending_writes_def)
qed

lemma pending_writes_mid:
  assumes "unat (wr_i s) + 1 < rec_size c" "rec_size c \<le> 255"
  shows "pending_writes c s =
     (wr_a s, Log_RecBuf s ! unat (wr_i s)) #
       pending_writes c (s\<lparr>wr_a := wr_a s + 1, wr_i := wr_i s + 1\<rparr>)"
proof -
  let ?j = "unat (wr_i s)"
  have u: "unat (wr_i s + 1) = ?j + 1"
    using assms by (simp add: unat_word_ariths)
  have "[?j ..< rec_size c] = ?j # [?j + 1 ..< rec_size c]"
    using assms by (simp add: upt_conv_Cons)
  moreover have "map (\<lambda>k. (wr_a s + (k - ?j),
               if k = rec_size c - 1
               then Log_CurFlag s OR (Log_RecBuf s ! k AND NOT LOG_FLAG_MASK)
               else Log_RecBuf s ! k)) [?j + 1 ..< rec_size c]
      = map (\<lambda>k. (wr_a s + 1 + (k - (?j + 1)),
               if k = rec_size c - 1
               then Log_CurFlag s OR (Log_RecBuf s ! k AND NOT LOG_FLAG_MASK)
               else Log_RecBuf s ! k)) [?j + 1 ..< rec_size c]"
    by (rule map_cong) auto
  moreover have "?j \<noteq> rec_size c - 1" using assms by simp
  ultimately show ?thesis
    by (simp add: pending_writes_def u del: upt_Suc)
qed

lemma finished_last:
  assumes "valid_cfg c" "unat (wr_i s) + 1 = rec_size c"
  shows "Log_Write_last c s m = (0, finished c s, WriteEE_list m (pending_writes c s))"
proof -
  have "rec_size c - 1 - unat (wr_i s) = 0" using assms(2) by simp
  then show ?thesis
    by (simp add: Log_Write_last_eq [OF assms(1)] finished_def pending_writes_last [OF assms(2)])
qed

lemma finished_mid:
  assumes "unat (wr_i s) + 1 < rec_size c" "rec_size c \<le> 255"
  shows "finished c (s\<lparr>wr_a := wr_a s + 1, wr_i := wr_i s + 1\<rparr>) = finished c s"
proof -
  have u: "unat (wr_i s + 1) = unat (wr_i s) + 1"
    using assms by (simp add: unat_word_ariths)
  have "wr_a s + 1 + (rec_size c - 1 - (unat (wr_i s) + 1)) = wr_a s + (rec_size c - 1 - unat (wr_i s))"
    using assms by simp
  then show ?thesis by (simp add: finished_def u)
qed

lemma transfer_progress:
  assumes c: "valid_cfg c"
  shows "wr_a s \<noteq> 0 \<Longrightarrow> 1 \<le> unat (wr_i s) \<Longrightarrow> unat (wr_i s) < rec_size c \<Longrightarrow>
     length (filter fst cs) = rec_size c - unat (wr_i s) \<Longrightarrow>
     polls_end c cs s m = (finished c s, WriteEE_list m (pending_writes c s))
     \<and> map fst (Log_polls c cs s m) = replicate (length cs) 0
     \<and> flag_flips c cs s m = (if unat (Log_CurRec s) = recs c - 1 then 1 else 0)"
proof (induction cs arbitrary: s m)
  case Nil
  then show ?case by simp
next
  case (Cons x cs)
  obtain f src where x: "x = (f, src)" by (cases x)
  have S: "2 \<le> rec_size c" "rec_size c \<le> 255" using c by (simp_all add: valid_cfg_def)
  show ?case
  proof (cases f)
    case False
    then have "length (filter fst cs) = rec_size c - unat (wr_i s)"
      using Cons.prems(4) by (simp add: x)
    from Cons.IH [OF Cons.prems(1-3) this, of m] show ?thesis
      using False by (simp add: x polls_end_Cons flag_flips_Cons write_busy)
  next
    case True
    show ?thesis
    proof (cases "unat (wr_i s) + 1 = rec_size c")
      case last: True
      have step: "Log_NoblockingWrite c True src s m = (0, finished c s, WriteEE_list m (pending_writes c s))"
        using write_last [OF Cons.prems(1) last S(1)] finished_last [OF c last] by simp
      have "rec_size c - unat (wr_i s) = 1" using last by arith
      then have "length (filter fst cs) = 0"
        using Cons.prems(4) True by (simp add: x)
      then have rest: "filter fst cs = []" by simp
      have fl: "Log_CurFlag (finished c s) =
          (if unat (Log_CurRec s) = recs c - 1 then Log_CurFlag s XOR LOG_FLAG_MASK else Log_CurFlag s)"
        by (simp add: finished_def)
      show ?thesis
        using True step flag_flip_neq [of "Log_CurFlag s"]
        by (simp add: x polls_end_Cons flag_flips_Cons busy_polls [OF rest] busy_polls_end [OF rest]
            busy_flag_flips [OF rest] fl comp_def map_replicate_const)
    next
      case mid: False
      let ?s1 = "s\<lparr>wr_a := wr_a s + 1, wr_i := wr_i s + 1\<rparr>"
      let ?m1 = "WriteEE m (wr_a s) (Log_RecBuf s ! unat (wr_i s))"
      have lt: "unat (wr_i s) + 1 < rec_size c" using mid Cons.prems(3) by simp
      have step: "Log_NoblockingWrite c True src s m = (0, ?s1, ?m1)"
        using write_mid [OF Cons.prems(1) lt] by simp
      have u: "unat (wr_i ?s1) = unat (wr_i s) + 1"
        using lt S by (simp add: unat_word_ariths)
      have p1: "wr_a ?s1 \<noteq> 0" by simp
      have p2: "1 \<le> unat (wr_i ?s1)" using u by simp
      have p3: "unat (wr_i ?s1) < rec_size c" using u lt by simp
      have p4: "length (filter fst cs) = rec_size c - unat (wr_i ?s1)"
        using Cons.prems(4) True u by (simp add: x)
      have same: "Log_CurFlag ?s1 = Log_CurFlag s" "Log_CurRec ?s1 = Log_CurRec s" by simp_all
      note ih = Cons.IH [OF p1 p2 p3 p4, of ?m1, unfolded finished_mid [OF lt S(2)] same]
      from ih show ?thesis
        using True step
        by (simp add: x polls_end_Cons flag_flips_Cons pending_writes_mid [OF lt S(2)])
    qed
  qed
qed

lemma Log_copy_loop_eq:
  "i \<noteq> 0 \<Longrightarrow> k + unat i \<le> length buf \<Longrightarrow> k + unat i \<le> length src \<Longrightarrow>
   Log_copy_loop i k src buf = take k buf @ take (unat i) (drop k src) @ drop (k + unat i) buf"
proof (induction "unat i" arbitrary: i k buf)
  case 0
  then show ?case by (simp add: unat_eq_0)
next
  case (Suc n)
  have ui: "unat i = Suc n" using Suc.hyps(2) by simp
  have kb: "k < length buf" and ks: "k < length src" using Suc.prems ui by simp_all
  have upd: "buf[k := src ! k] = take k buf @ [src ! k] @ drop (k + 1) buf"
    using kb by (simp add: upd_conv_take_nth_drop)
  show ?case
  proof (cases "i - 1 = 0")
    case True
    then have "i = 1" by simp
    then have "take (unat i) (drop k src) = [src ! k]"
      using ks by (simp add: take_Suc_conv_app_nth Cons_nth_drop_Suc [symmetric])
    then show ?thesis using True \<open>i = 1\<close> upd
      by (subst Log_copy_loop.simps) (simp add: Let_def)
  next
    case False
    have n: "unat (i - 1) = n" using ui Suc.prems(1) by (simp add: unat_minus_one)
    have "Log_copy_loop i k src buf = Log_copy_loop (i - 1) (k + 1) src (buf[k := src ! k])"
      using False by (subst Log_copy_loop.simps) (simp add: Let_def)
    also have "\<dots> = take (k + 1) (buf[k := src ! k]) @ take n (drop (k + 1) src)
          @ drop (k + 1 + n) (buf[k := src ! k])"
      using Suc.hyps(1) [of "i - 1" "k + 1" "buf[k := src ! k]"] n False Suc.prems ui by simp
    also have "take (k + 1) (buf[k := src ! k]) = take k buf @ [src ! k]"
      using kb by (simp add: take_Suc_conv_app_nth)
    also have "drop (k + 1 + n) (buf[k := src ! k]) = drop (k + 1 + n) buf"
      by simp
    finally have "Log_copy_loop i k src buf =
        (take k buf @ [src ! k]) @ take n (drop (k + 1) src) @ drop (k + 1 + n) buf" .
    moreover have "take (unat i) (drop k src) = src ! k # take n (drop (k + 1) src)"
      using ks ui by (simp add: Cons_nth_drop_Suc [symmetric])
    ultimately show ?thesis using ui by simp
  qed
qed

lemma write_start:
  assumes "writer_at_rest c s"
  shows "Log_NoblockingWrite c True (Some bs) s m =
     (1, started c bs s, WriteEE m (slot_addr c (unat (Log_CurRec s))) (bs ! 0))"
  using assms
  by (simp add: write_at_rest Log_Write_test_def started_def slot_addr_def Let_def mult.commute)

lemma write_probe:
  assumes "writer_at_rest c s"
  shows "Log_NoblockingWrite c True None s m = (1, s\<lparr>wr_a := 0\<rparr>, m)"
  using assms by (simp add: write_at_rest Log_Write_test_def)

lemma RecBuf_started:
  assumes "valid_cfg c" "length bs = rec_size c" "length (Log_RecBuf s) = rec_size c"
  shows "Log_RecBuf (started c bs s) = 1 # tl bs"
proof -
  let ?i = "of_nat (rec_size c) - 1 :: byte"
  have S: "2 \<le> rec_size c" "rec_size c \<le> 255" using assms by (simp_all add: valid_cfg_def)
  have ui: "unat ?i = rec_size c - 1"
    using S by (simp add: unat_sub word_le_nat_alt unat_of_nat)
  then have i0: "?i \<noteq> 0" using S by (metis unat_0 diff_is_0_eq not_less_eq_eq numeral_2_eq_2 One_nat_def)
  have "Log_copy_loop ?i 1 bs ((Log_RecBuf s)[0 := 1]) =
      take 1 ((Log_RecBuf s)[0 := 1]) @ take (rec_size c - 1) (drop 1 bs)
        @ drop (1 + (rec_size c - 1)) ((Log_RecBuf s)[0 := 1])"
    using Log_copy_loop_eq [OF i0, of 1 "(Log_RecBuf s)[0 := 1]" bs] ui assms S by simp
  moreover have "take 1 ((Log_RecBuf s)[0 := 1]) = [1]"
    using assms S by (cases "Log_RecBuf s") auto
  ultimately show ?thesis
    using assms S by (simp add: started_def drop_Suc)
qed


lemma started_fields [simp]:
  "wr_a (started c bs s) = slot_addr c (unat (Log_CurRec s)) + 1"
  "wr_i (started c bs s) = 1"
  "Log_CurRec (started c bs s) = Log_CurRec s"
  "Log_CurFlag (started c bs s) = Log_CurFlag s"
  "Log_CurReadRec (started c bs s) = Log_CurReadRec s"
  by (simp_all add: started_def)

lemma finished_fields [simp]:
  "Log_CurRec (finished c s) = ring_fwd c (Log_CurRec s)"
  "Log_CurFlag (finished c s) =
     (if unat (Log_CurRec s) = recs c - 1 then Log_CurFlag s XOR LOG_FLAG_MASK else Log_CurFlag s)"
  "wr_i (finished c s) = of_nat (rec_size c)"
  "Log_RecBuf (finished c s) = Log_RecBuf s"
  by (simp_all add: finished_def)

lemma writer_at_rest_finished:
  "rec_size c \<le> 255 \<Longrightarrow> writer_at_rest c (finished c s)"
  by (simp add: writer_at_rest_def uint_eq_int_iff unat_of_nat)

lemma writer_at_rest_idle [simp]: "writer_at_rest c (s\<lparr>wr_a := 0\<rparr>)"
  by (simp add: writer_at_rest_def)

lemma record_writes_started:
  assumes "valid_cfg c" "length bs = rec_size c" "length (Log_RecBuf s) = rec_size c"
  shows "(slot_addr c (unat (Log_CurRec s)), bs ! 0) # pending_writes c (started c bs s)
           = record_writes c s bs"
proof -
  have S: "2 \<le> rec_size c" using assms by (simp add: valid_cfg_def)
  have m: "NOT LOG_FLAG_MASK = (0x7F :: byte)" by (simp add: LOG_FLAG_MASK_def)
  have buf: "Log_RecBuf (started c bs s) = 1 # tl bs" using assms by (rule RecBuf_started)
  have nth: "(1 # tl bs) ! k = bs ! k" if "1 \<le> k" "k < rec_size c" for k
    using that assms(2) by (cases k) (simp_all add: nth_tl)
  have up: "[0 ..< rec_size c] = 0 # [1 ..< rec_size c]"
    using S by (simp add: upt_conv_Cons)
  have "pending_writes c (started c bs s) =
      map (\<lambda>k. (slot_addr c (unat (Log_CurRec s)) + k,
               if k = rec_size c - 1 then Log_CurFlag s OR (bs ! k AND 0x7F) else bs ! k))
          [1 ..< rec_size c]"
    unfolding pending_writes_def
  proof (rule map_cong)
    show "[unat (wr_i (started c bs s)) ..< rec_size c] = [1 ..< rec_size c]" by simp
  next
    fix k assume "k \<in> set [1 ..< rec_size c]"
    then have k: "1 \<le> k" "k < rec_size c" by simp_all
    have "Log_RecBuf (started c bs s) ! k = bs ! k"
      unfolding buf using k by (rule nth)
    moreover have "wr_a (started c bs s) + (k - unat (wr_i (started c bs s)))
        = slot_addr c (unat (Log_CurRec s)) + k"
      using k by simp
    ultimately show "(wr_a (started c bs s) + (k - unat (wr_i (started c bs s))),
        if k = rec_size c - 1
        then Log_CurFlag (started c bs s) OR (Log_RecBuf (started c bs s) ! k AND NOT LOG_FLAG_MASK)
        else Log_RecBuf (started c bs s) ! k) =
       (slot_addr c (unat (Log_CurRec s)) + k,
        if k = rec_size c - 1 then Log_CurFlag s OR (bs ! k AND 0x7F) else bs ! k)"
      by (simp only: m started_fields)
  qed
  then show ?thesis
    using S by (simp add: record_writes_def up del: upt_Suc)
qed

lemma probe_polls:
  assumes "writer_at_rest c s"
  shows "polls_end c (map (\<lambda>f. (f, None)) fs) s m = (if True \<in> set fs then s\<lparr>wr_a := 0\<rparr> else s, m)
     \<and> map fst (Log_polls c (map (\<lambda>f. (f, None)) fs) s m) = map (\<lambda>f. if f then 1 else 0) fs
     \<and> flag_flips c (map (\<lambda>f. (f, None)) fs) s m = 0"
  using assms
proof (induction fs arbitrary: s)
  case Nil
  show ?case by simp
next
  case (Cons f fs)
  show ?case
  proof (cases f)
    case False
    then show ?thesis using Cons.IH [OF Cons.prems]
      by (simp add: polls_end_Cons flag_flips_Cons write_busy)
  next
    case True
    have "writer_at_rest c (s\<lparr>wr_a := 0\<rparr>)" by simp
    from Cons.IH [OF this] show ?thesis using True
      by (simp add: polls_end_Cons flag_flips_Cons write_probe [OF Cons.prems])
  qed
qed

lemma transfer_complete:
  assumes c: "valid_cfg c" and rest: "writer_at_rest c s"
    and n: "length (filter fst cs1) = rec_size c - 1"
  shows "polls_end c (transfer_calls (bs, cs1, cs2)) s m =
       (if True \<in> set cs2 then (finished c (started c bs s))\<lparr>wr_a := 0\<rparr> else finished c (started c bs s),
        WriteEE_list m ((slot_addr c (unat (Log_CurRec s)), bs ! 0) # pending_writes c (started c bs s)))"
    and "map fst (Log_polls c (transfer_calls (bs, cs1, cs2)) s m) =
       1 # replicate (length cs1) 0 @ map (\<lambda>f. if f then 1 else 0) cs2"
    and "flag_flips c (transfer_calls (bs, cs1, cs2)) s m =
       (if unat (Log_CurRec s) = recs c - 1 then 1 else 0)"
proof -
  let ?s1 = "started c bs s"
  let ?m1 = "WriteEE m (slot_addr c (unat (Log_CurRec s))) (bs ! 0)"
  have S: "2 \<le> rec_size c" "rec_size c \<le> 255" using c by (simp_all add: valid_cfg_def)
  have p: "wr_a ?s1 \<noteq> 0" "1 \<le> unat (wr_i ?s1)" "unat (wr_i ?s1) < rec_size c"
    "length (filter fst cs1) = rec_size c - unat (wr_i ?s1)"
    using S n by simp_all
  note prog = transfer_progress [OF c p, of ?m1]
  have r2: "writer_at_rest c (finished c ?s1)" using S(2) by (rule writer_at_rest_finished)
  note tail = probe_polls [OF r2, of cs2 "WriteEE_list ?m1 (pending_writes c ?s1)"]
  have calls: "transfer_calls (bs, cs1, cs2) = ((True, Some bs) # cs1) @ map (\<lambda>f. (f, None)) cs2"
    by (simp add: transfer_calls_def)
  have e1: "polls_end c ((True, Some bs) # cs1) s m = (finished c ?s1, WriteEE_list ?m1 (pending_writes c ?s1))"
    using prog by (simp add: polls_end_Cons write_start [OF rest])
  show "polls_end c (transfer_calls (bs, cs1, cs2)) s m =
       (if True \<in> set cs2 then (finished c ?s1)\<lparr>wr_a := 0\<rparr> else finished c ?s1,
        WriteEE_list m ((slot_addr c (unat (Log_CurRec s)), bs ! 0) # pending_writes c ?s1))"
    unfolding calls polls_end_append e1 using tail by simp
  show "map fst (Log_polls c (transfer_calls (bs, cs1, cs2)) s m) =
       1 # replicate (length cs1) 0 @ map (\<lambda>f. if f then 1 else 0) cs2"
    unfolding calls Log_polls_append e1 using tail prog by (simp add: write_start [OF rest])
  show "flag_flips c (transfer_calls (bs, cs1, cs2)) s m =
       (if unat (Log_CurRec s) = recs c - 1 then 1 else 0)"
    unfolding calls flag_flips_append e1 using tail prog
    by (simp add: flag_flips_Cons write_start [OF rest])
qed

lemma new_writes_WriteEE_list [simp]: "new_writes m (WriteEE_list m ws) = ws"
  by (simp add: new_writes_def issued_WriteEE_list)

lemma new_writes_self [simp]: "new_writes m m = []"
  by (simp add: new_writes_def)

lemma issued_step:
  "issued (snd (snd (Log_NoblockingWrite c f src s m))) =
     issued m @ new_writes m (snd (snd (Log_NoblockingWrite c f src s m)))
   \<and> length (new_writes m (snd (snd (Log_NoblockingWrite c f src s m)))) =
       (if f \<and> \<not> (writer_at_rest c s \<and> src = None) then 1 else 0)"
  by (cases src)
     (auto simp: Log_NoblockingWrite_def Log_Write_test_def Log_Write_last_def WriteEE_def
        new_writes_def writer_at_rest_def Let_def)

lemma issued_polls:
  "issued (snd (polls_end c cs s m)) = issued m @ new_writes m (snd (polls_end c cs s m))
   \<and> length (new_writes m (snd (polls_end c cs s m))) \<le> length (filter fst cs)"
proof (induction cs arbitrary: s m)
  case Nil
  show ?case by simp
next
  case (Cons x cs)
  obtain f src where x: "x = (f, src)" by (cases x)
  obtain r s1 m1 where st: "Log_NoblockingWrite c f src s m = (r, s1, m1)"
    by (cases "Log_NoblockingWrite c f src s m")
  let ?m2 = "snd (polls_end c cs s1 m1)"
  have a: "issued m1 = issued m @ new_writes m m1"
    and b: "length (new_writes m m1) = (if f \<and> \<not> (writer_at_rest c s \<and> src = None) then 1 else 0)"
    using issued_step [of c f src s m] by (simp_all add: st)
  have i: "issued ?m2 = issued m1 @ new_writes m1 ?m2"
    and l: "length (new_writes m1 ?m2) \<le> length (filter fst cs)"
    using Cons.IH [of s1 m1] by simp_all
  have e: "polls_end c (x # cs) s m = polls_end c cs s1 m1"
    by (simp add: x polls_end_Cons st)
  define A where "A = new_writes m m1"
  define B where "B = new_writes m1 ?m2"
  have "issued ?m2 = issued m @ A @ B"
    using a i unfolding A_def B_def by simp
  then have "new_writes m ?m2 = A @ B"
    by (simp add: new_writes_def)
  then have n: "new_writes m ?m2 = new_writes m m1 @ new_writes m1 ?m2"
    by (simp add: A_def B_def)
  show ?case
    unfolding e using a b i l n by (auto simp: x)
qed

text \<open>
  Claim C6, amended.  An invocation of the writer while the medium is ready
  issues exactly one byte write, except that it issues none when it is called
  with a null \<^verbatim>\<open>src\<close> on a writer that is idle or has just completed a record
  (the status probe).  So no sequence of invocations issues more byte writes
  than it has ready invocations.  Transferring one record takes the starting call
  and \<open>rec_size - 1\<close> further ready invocations, \<open>rec_size\<close> in all, with any
  number of busy invocations in between; together they issue exactly the
  \<open>rec_size\<close> byte writes of the record to the consecutive addresses of the
  slot at the write cursor, and status probes after them issue nothing.
\<close>

theorem writes_per_invocation:
  assumes "valid_cfg c" "writer_at_rest c s" "length bs = rec_size c"
    "length (Log_RecBuf s) = rec_size c" "length (filter fst cs1) = rec_size c - 1"
  shows "length (new_writes m0 (snd (snd (Log_NoblockingWrite c True src s0 m0)))) =
       (if writer_at_rest c s0 \<and> src = None then 0 else 1)
    \<and> length (new_writes m0 (snd (polls_end c cs s0 m0))) \<le> length (filter fst cs)
    \<and> new_writes m (snd (polls_end c (transfer_calls (bs, cs1, cs2)) s m)) = record_writes c s bs
    \<and> length (record_writes c s bs) = rec_size c
    \<and> length (filter fst ((True, Some bs) # cs1)) = rec_size c
    \<and> map fst (Log_polls c (transfer_calls (bs, cs1, cs2)) s m) =
         1 # replicate (length cs1) 0 @ map (\<lambda>f. if f then 1 else 0) cs2"
proof -
  have "length (new_writes m0 (snd (snd (Log_NoblockingWrite c True src s0 m0)))) =
       (if writer_at_rest c s0 \<and> src = None then 0 else 1)"
    using issued_step [of c True src s0 m0] by simp
  moreover have "length (new_writes m0 (snd (polls_end c cs s0 m0))) \<le> length (filter fst cs)"
    using issued_polls [of c cs s0 m0] by simp
  moreover have "new_writes m (snd (polls_end c (transfer_calls (bs, cs1, cs2)) s m)) = record_writes c s bs"
    by (simp add: transfer_complete(1) [OF assms(1,2,5)] record_writes_started [OF assms(1,3,4)])
  moreover have "length (record_writes c s bs) = rec_size c"
    by (simp add: record_writes_def)
  moreover have "length (filter fst ((True, Some bs) # cs1)) = rec_size c"
    using assms(1,5) by (simp add: valid_cfg_def)
  moreover note transfer_complete(2) [OF assms(1,2,5)]
  ultimately show ?thesis by simp
qed

theorem writes_per_invocation_witness:
  "valid_cfg cfg43 \<and> writer_at_rest cfg43 (log_at 1 0x80 0) \<and> length (recd 0x41) = rec_size cfg43
   \<and> length (Log_RecBuf (log_at 1 0x80 0)) = rec_size cfg43
   \<and> length (filter fst [(False, None), (True, None), (False, Some (recd 9)), (True, Some (recd 9))])
        = rec_size cfg43 - 1
   \<and> new_writes medium_zero (snd (polls_end cfg43
        (transfer_calls (recd 0x41, [(False, None), (True, None), (False, Some (recd 9)), (True, Some (recd 9))], [True]))
        (log_at 1 0x80 0) medium_zero)) = [(3, 0x41), (4, 0x41), (5, 0xC1)]
   \<and> map fst (Log_polls cfg43
        (transfer_calls (recd 0x41, [(False, None), (True, None), (False, Some (recd 9)), (True, Some (recd 9))], [True]))
        (log_at 1 0x80 0) medium_zero) = [1, 0, 0, 0, 0, 1]"
proof -
  have h: "valid_cfg cfg43" "writer_at_rest cfg43 (log_at 1 0x80 0)" "length (recd 0x41) = rec_size cfg43"
    "length (Log_RecBuf (log_at 1 0x80 0)) = rec_size cfg43"
    "length (filter fst [(False, None), (True, None), (False, Some (recd 9)), (True, Some (recd 9))])
        = rec_size cfg43 - 1"
    by (simp_all add: writer_at_rest_def log_at_def recd_def)
  have r: "record_writes cfg43 (log_at 1 0x80 0) (recd 0x41) = [(3, 0x41), (4, 0x41), (5, 0xC1)]"
    by (simp add: record_writes_def log_at_def recd_def slot_addr_def upt_0_3)
  show ?thesis
    using h writes_per_invocation [OF h, of medium_zero None "log_at 1 0x80 0" "[]" medium_zero "[True]"]
    by (simp add: r)
qed

text \<open>
  Claim C6 as stated fails: a status probe of an idle writer is an invocation
  while the medium is ready that issues no byte write.
\<close>

theorem probe_issues_no_write:
  "length (new_writes medium_zero (snd (snd (Log_NoblockingWrite cfg43 True None (log_at 1 0x80 0) medium_zero)))) \<noteq> 1"
  by (simp add: Log_NoblockingWrite_def Log_Write_test_def log_at_def)

lemma ring_count_step:
  assumes "0 < N" "w < N"
  shows "((w + 1) mod N + n) mod N = (w + Suc n) mod N"
    and "(if w = N - 1 then 1 else 0) + ((w + 1) mod N + n) div N = (w + Suc n) div (N :: nat)"
proof -
  show "((w + 1) mod N + n) mod N = (w + Suc n) mod N"
    by (simp add: mod_add_left_eq)
  show "(if w = N - 1 then 1 else 0) + ((w + 1) mod N + n) div N = (w + Suc n) div N"
  proof (cases "w = N - 1")
    case True
    then have "w + 1 = N" using assms by simp
    then have "(w + 1) mod N = 0" "w + Suc n = N + n" by simp_all
    then show ?thesis using True assms by (simp add: div_add_self1)
  next
    case False
    then have "w + 1 < N" using assms by simp
    then show ?thesis using False by simp
  qed
qed

lemma transfers_run:
  assumes c: "valid_cfg c"
  shows "writer_at_rest c s \<Longrightarrow> unat (Log_CurRec s) < recs c \<Longrightarrow>
     list_all (\<lambda>t. length (filter fst (fst (snd t))) = rec_size c - 1) ts \<Longrightarrow>
     unat (Log_CurRec (fst (polls_end c (concat (map transfer_calls ts)) s m)))
         = (unat (Log_CurRec s) + length ts) mod recs c
     \<and> Log_CurFlag (fst (polls_end c (concat (map transfer_calls ts)) s m))
         = (if even ((unat (Log_CurRec s) + length ts) div recs c)
            then Log_CurFlag s else Log_CurFlag s XOR LOG_FLAG_MASK)
     \<and> writer_at_rest c (fst (polls_end c (concat (map transfer_calls ts)) s m))
     \<and> flag_flips c (concat (map transfer_calls ts)) s m
         = (unat (Log_CurRec s) + length ts) div recs c"
proof (induction ts arbitrary: s m)
  case Nil
  then show ?case by simp
next
  case (Cons t ts)
  obtain bs cs1 cs2 where t: "t = (bs, cs1, cs2)" by (cases t)
  have N: "2 \<le> recs c" "recs c \<le> 255" "0 < recs c" and S: "rec_size c \<le> 255"
    using c by (simp_all add: valid_cfg_def)
  let ?w = "unat (Log_CurRec s)"
  let ?f = "finished c (started c bs s)"
  let ?s1 = "if True \<in> set cs2 then ?f\<lparr>wr_a := 0\<rparr> else ?f"
  let ?m1 = "WriteEE_list m ((slot_addr c ?w, bs ! 0) # pending_writes c (started c bs s))"
  have n1: "length (filter fst cs1) = rec_size c - 1"
    and rest: "list_all (\<lambda>t. length (filter fst (fst (snd t))) = rec_size c - 1) ts"
    using Cons.prems(3) by (simp_all add: t)
  note tc = transfer_complete [OF c Cons.prems(1) n1, of bs cs2 m]
  have e: "polls_end c (transfer_calls t) s m = (?s1, ?m1)"
    using tc(1) by (simp add: t)
  have r1: "writer_at_rest c ?s1"
    using writer_at_rest_finished [OF S, of "started c bs s"] by simp
  have cur: "Log_CurRec ?s1 = ring_fwd c (Log_CurRec s)" by simp
  have w1: "unat (Log_CurRec ?s1) = (?w + 1) mod recs c"
    unfolding cur using N(1,2) Cons.prems(2) by (rule ring_fwd_unat)
  have lt: "unat (Log_CurRec ?s1) < recs c" using w1 N(3) by simp
  have fl: "Log_CurFlag ?s1 = (if ?w = recs c - 1 then Log_CurFlag s XOR LOG_FLAG_MASK else Log_CurFlag s)"
    by simp
  note ih = Cons.IH [OF r1 lt rest, of ?m1]
  note ar = ring_count_step [OF N(3) Cons.prems(2), of "length ts"]
  have pe: "polls_end c (concat (map transfer_calls (t # ts))) s m =
      polls_end c (concat (map transfer_calls ts)) ?s1 ?m1"
    by (simp add: polls_end_append e)
  have ff: "flag_flips c (concat (map transfer_calls (t # ts))) s m =
      (if ?w = recs c - 1 then 1 else 0) + flag_flips c (concat (map transfer_calls ts)) ?s1 ?m1"
    using tc(3) unfolding t by (simp add: flag_flips_append e [unfolded t])
  have d: "(?w + length (t # ts)) div recs c = (if ?w = recs c - 1 then 1 else 0) + ((?w + 1) mod recs c + length ts) div recs c"
    and md: "(?w + length (t # ts)) mod recs c = ((?w + 1) mod recs c + length ts) mod recs c"
    using ar by simp_all
  have "unat (Log_CurRec (fst (polls_end c (concat (map transfer_calls (t # ts))) s m)))
         = (?w + length (t # ts)) mod recs c"
    unfolding pe md using ih w1 by simp
  moreover have "Log_CurFlag (fst (polls_end c (concat (map transfer_calls (t # ts))) s m))
         = (if even ((?w + length (t # ts)) div recs c)
            then Log_CurFlag s else Log_CurFlag s XOR LOG_FLAG_MASK)"
  proof -
    have "Log_CurFlag (fst (polls_end c (concat (map transfer_calls ts)) ?s1 ?m1)) =
        (if even (((?w + 1) mod recs c + length ts) div recs c)
         then Log_CurFlag ?s1 else Log_CurFlag ?s1 XOR LOG_FLAG_MASK)"
      using ih w1 by simp
    then show ?thesis
      unfolding pe d fl by (simp add: xor.assoc)
  qed
  moreover have "writer_at_rest c (fst (polls_end c (concat (map transfer_calls (t # ts))) s m))"
    unfolding pe using ih by simp
  moreover have "flag_flips c (concat (map transfer_calls (t # ts))) s m
         = (?w + length (t # ts)) div recs c"
    unfolding ff d using ih w1 by simp
  ultimately show ?case by blast
qed


lemma card_readable:
  assumes "unat (Log_CurRec s) < recs c"
  shows "card (readable c s) = recs c - 1"
proof -
  have "readable c s = {..< recs c} - {unat (Log_CurRec s)}"
    by (auto simp: readable_def)
  then show ?thesis using assms by simp
qed

text \<open>
  Claim C5.  From a log state whose write cursor is a slot index and whose
  writer is not in the middle of a record, \<open>recs\<close> completed transfers (each
  the starting call, \<open>rec_size - 1\<close> further ready invocations, and any busy
  invocations and status probes) change the flag exactly once: over all the
  invocations its value changes at one invocation only, and it ends inverted.
  The write cursor is back where it started, and the readable slots, all indices
  but the write cursor, are \<open>recs - 1\<close> before and after.
\<close>

theorem flag_flips_once_per_ring:
  assumes "valid_cfg c" "writer_at_rest c s" "unat (Log_CurRec s) < recs c" "length ts = recs c"
    "list_all (\<lambda>t. length (filter fst (fst (snd t))) = rec_size c - 1) ts"
  shows "flag_flips c (concat (map transfer_calls ts)) s m = 1
     \<and> Log_CurFlag (fst (polls_end c (concat (map transfer_calls ts)) s m)) = Log_CurFlag s XOR LOG_FLAG_MASK
     \<and> Log_CurRec (fst (polls_end c (concat (map transfer_calls ts)) s m)) = Log_CurRec s
     \<and> card (readable c s) = recs c - 1
     \<and> card (readable c (fst (polls_end c (concat (map transfer_calls ts)) s m))) = recs c - 1"
proof -
  let ?w = "unat (Log_CurRec s)"
  let ?s' = "fst (polls_end c (concat (map transfer_calls ts)) s m)"
  have N: "0 < recs c" using assms(1) by (simp add: valid_cfg_def)
  have d: "(?w + length ts) div recs c = 1" and md: "(?w + length ts) mod recs c = ?w"
    using assms(3,4) N by (simp_all add: div_add_self2)
  note run = transfers_run [OF assms(1,2,3,5), of m, unfolded d md]
  have cur: "Log_CurRec ?s' = Log_CurRec s"
    using run by (simp add: word_unat_eq_iff)
  have "card (readable c ?s') = recs c - 1"
    using assms(3) by (simp add: card_readable cur)
  then show ?thesis
    using run cur assms(3) by (simp add: card_readable)
qed

theorem flag_flips_once_per_ring_witness:
  "valid_cfg cfg43 \<and> writer_at_rest cfg43 (log_at 2 0x80 0) \<and> unat (Log_CurRec (log_at 2 0x80 0)) < recs cfg43
   \<and> length four_transfers = recs cfg43
   \<and> list_all (\<lambda>t. length (filter fst (fst (snd t))) = rec_size cfg43 - 1) four_transfers
   \<and> flag_flips cfg43 (concat (map transfer_calls four_transfers)) (log_at 2 0x80 0) medium_zero = 1
   \<and> Log_CurFlag (fst (polls_end cfg43 (concat (map transfer_calls four_transfers)) (log_at 2 0x80 0) medium_zero)) = 0
   \<and> Log_CurRec (fst (polls_end cfg43 (concat (map transfer_calls four_transfers)) (log_at 2 0x80 0) medium_zero)) = 2
   \<and> card (readable cfg43 (fst (polls_end cfg43 (concat (map transfer_calls four_transfers)) (log_at 2 0x80 0) medium_zero))) = 3"
proof -
  have h: "valid_cfg cfg43" "writer_at_rest cfg43 (log_at 2 0x80 0)"
    "unat (Log_CurRec (log_at 2 0x80 0)) < recs cfg43" "length four_transfers = recs cfg43"
    "list_all (\<lambda>t. length (filter fst (fst (snd t))) = rec_size cfg43 - 1) four_transfers"
    by (simp_all add: writer_at_rest_def log_at_def four_transfers_def)
  have x: "Log_CurFlag (log_at 2 0x80 0) XOR LOG_FLAG_MASK = 0" "Log_CurRec (log_at 2 0x80 0) = 2"
    by (simp_all add: log_at_def LOG_FLAG_MASK_def)
  show ?thesis
    using h flag_flips_once_per_ring [OF h, of medium_zero] by (simp add: x)
qed

text \<open>
  Claim C9.  When the medium reports not ready, an invocation of the writer
  returns 0 and changes nothing: no byte write is issued, and the statics
  (write cursor, flag, read cursor, address, byte offset, staging buffer) and the
  medium are as before.
\<close>

theorem write_busy_noop: "Log_NoblockingWrite c False src s m = (0, s, m)"
  by (simp add: Log_NoblockingWrite_def)

subsection \<open>The scan of the initialisation\<close>

lemma scan_addrs_step:
  "((a :: nat) + S) # map (\<lambda>j. a + S + j * S) [1 ..< Suc n] = map (\<lambda>j. a + j * S) [1 ..< Suc (Suc n)]"
proof -
  have "[1 ..< Suc (Suc n)] = 1 # map Suc [1 ..< Suc n]"
    by (simp add: upt_conv_Cons map_Suc_upt del: upt_Suc)
  then show ?thesis by (simp add: comp_def del: upt_Suc)
qed

lemma Log_InitLog_loop_returns:
  assumes N: "recs c \<le> 255"
  shows "1 \<le> unat cr \<Longrightarrow> unat cr < recs c \<Longrightarrow>
     \<exists>s' n. Log_InitLog_loop c ee f a cr rd s = Some (s', rd @ map (\<lambda>j. a + j * rec_size c) [1 ..< Suc n])
        \<and> 1 \<le> n \<and> unat cr + n \<le> recs c
        \<and> unat (Log_CurRec s') < recs c \<and> unat (Log_CurReadRec s') < recs c
        \<and> wr_a s' = wr_a s \<and> wr_i s' = wr_i s \<and> Log_RecBuf s' = Log_RecBuf s"
proof (induction "recs c - unat cr" arbitrary: cr a rd)
  case 0
  then show ?case by simp
next
  case (Suc k)
  let ?a1 = "a + rec_size c"
  have N2: "2 \<le> recs c" using Suc.prems by simp
  have one: "map (\<lambda>j. a + j * rec_size c) [1 ..< Suc 1] = [?a1]" by simp
  show ?case
  proof (cases "f XOR Log_ReadFlag ee ?a1 \<noteq> 0")
    case True
    let ?s' = "s\<lparr>Log_CurRec := cr, Log_CurReadRec := ring_fwd c cr\<rparr>"
    have "unat (ring_fwd c cr) < recs c"
      using ring_fwd_unat [OF N2 N Suc.prems(2)] N2 by simp
    moreover have "Log_InitLog_loop c ee f a cr rd s = Some (?s', rd @ [?a1])"
      using True by (subst Log_InitLog_loop.simps) (simp add: Let_def)
    ultimately show ?thesis
      using Suc.prems by (intro exI [of _ ?s'] exI [of _ 1]) (simp add: one)
  next
    case False
    have u: "unat (cr + 1) = unat cr + 1"
      using Suc.prems N by (simp add: unat_word_ariths)
    have lt: "uint (cr + 1) < int (recs c) \<longleftrightarrow> unat cr + 1 < recs c"
      unfolding u [symmetric] by (simp only: uint_nat of_nat_less_iff)
    show ?thesis
    proof (cases "unat cr + 1 < recs c")
      case more: True
      have k: "k = recs c - unat (cr + 1)" using Suc.hyps(2) u by simp
      have p: "1 \<le> unat (cr + 1)" "unat (cr + 1) < recs c" using u more by simp_all
      have "\<exists>s' n. Log_InitLog_loop c ee f ?a1 (cr + 1) (rd @ [?a1]) s =
           Some (s', (rd @ [?a1]) @ map (\<lambda>j. ?a1 + j * rec_size c) [1 ..< Suc n])
        \<and> 1 \<le> n \<and> unat (cr + 1) + n \<le> recs c
        \<and> unat (Log_CurRec s') < recs c \<and> unat (Log_CurReadRec s') < recs c
        \<and> wr_a s' = wr_a s \<and> wr_i s' = wr_i s \<and> Log_RecBuf s' = Log_RecBuf s"
        using k p by (rule Suc.hyps(1))
      then obtain s' n where r:
        "Log_InitLog_loop c ee f ?a1 (cr + 1) (rd @ [?a1]) s =
           Some (s', (rd @ [?a1]) @ map (\<lambda>j. ?a1 + j * rec_size c) [1 ..< Suc n])"
        "1 \<le> n" "unat (cr + 1) + n \<le> recs c"
        "unat (Log_CurRec s') < recs c" "unat (Log_CurReadRec s') < recs c"
        "wr_a s' = wr_a s" "wr_i s' = wr_i s" "Log_RecBuf s' = Log_RecBuf s"
        by blast
      have step: "Log_InitLog_loop c ee f a cr rd s =
          Log_InitLog_loop c ee f ?a1 (cr + 1) (rd @ [?a1]) s"
        using False more lt by (subst Log_InitLog_loop.simps) (simp add: Let_def)
      have "(rd @ [?a1]) @ map (\<lambda>j. ?a1 + j * rec_size c) [1 ..< Suc n] =
          rd @ map (\<lambda>j. a + j * rec_size c) [1 ..< Suc (Suc n)]"
        using scan_addrs_step [of a "rec_size c" n] by (simp del: upt_Suc)
      then have "Log_InitLog_loop c ee f a cr rd s =
          Some (s', rd @ map (\<lambda>j. a + j * rec_size c) [1 ..< Suc (Suc n)])"
        using step r(1) by simp
      then show ?thesis
        using r(2-) u by (intro exI [of _ s'] exI [of _ "Suc n"]) simp
    next
      case stop: False
      let ?s' = "s\<lparr>Log_CurRec := 0, Log_CurReadRec := 1, Log_CurFlag := f XOR LOG_FLAG_MASK\<rparr>"
      have "Log_InitLog_loop c ee f a cr rd s = Some (?s', rd @ [?a1])"
        using False stop lt by (subst Log_InitLog_loop.simps) (simp add: Let_def)
      then show ?thesis
        using Suc.prems N2 by (intro exI [of _ ?s'] exI [of _ 1]) (simp add: one)
    qed
  qed
qed

lemma Log_InitLog_returns:
  assumes "valid_cfg c"
  shows "\<exists>s' n. Log_InitLog c ee s = Some (s', map (slot_addr c) [1 ..< n + 2])
     \<and> 1 \<le> n \<and> n < recs c \<and> wf_logger c s'
     \<and> wr_a s' = wr_a s \<and> wr_i s' = wr_i s \<and> Log_RecBuf s' = Log_RecBuf s"
proof -
  have N: "recs c \<le> 255" "2 \<le> recs c" using assms by (simp_all add: valid_cfg_def)
  let ?a = "start_addr c + rec_size c"
  let ?f = "Log_ReadFlag ee ?a"
  have p: "1 \<le> unat (1 :: byte)" "unat (1 :: byte) < recs c" using N by simp_all
  have "\<exists>s' n. Log_InitLog_loop c ee ?f ?a 1 [?a] (s\<lparr>Log_CurFlag := ?f\<rparr>) =
       Some (s', [?a] @ map (\<lambda>j. ?a + j * rec_size c) [1 ..< Suc n])
     \<and> 1 \<le> n \<and> unat (1 :: byte) + n \<le> recs c
     \<and> unat (Log_CurRec s') < recs c \<and> unat (Log_CurReadRec s') < recs c
     \<and> wr_a s' = wr_a (s\<lparr>Log_CurFlag := ?f\<rparr>) \<and> wr_i s' = wr_i (s\<lparr>Log_CurFlag := ?f\<rparr>)
     \<and> Log_RecBuf s' = Log_RecBuf (s\<lparr>Log_CurFlag := ?f\<rparr>)"
    by (rule Log_InitLog_loop_returns [OF N(1) p])
  then obtain s' n where r:
    "Log_InitLog_loop c ee ?f ?a 1 [?a] (s\<lparr>Log_CurFlag := ?f\<rparr>) =
       Some (s', [?a] @ map (\<lambda>j. ?a + j * rec_size c) [1 ..< Suc n])"
    "1 \<le> n" "unat (1 :: byte) + n \<le> recs c"
    "unat (Log_CurRec s') < recs c" "unat (Log_CurReadRec s') < recs c"
    "wr_a s' = wr_a (s\<lparr>Log_CurFlag := ?f\<rparr>)" "wr_i s' = wr_i (s\<lparr>Log_CurFlag := ?f\<rparr>)"
    "Log_RecBuf s' = Log_RecBuf (s\<lparr>Log_CurFlag := ?f\<rparr>)"
    by blast
  have "[1 ..< n + 2] = 1 # map Suc [1 ..< Suc n]"
    by (simp add: upt_conv_Cons map_Suc_upt del: upt_Suc)
  then have "map (slot_addr c) [1 ..< n + 2] = [?a] @ map (\<lambda>j. ?a + j * rec_size c) [1 ..< Suc n]"
    by (simp add: slot_addr_def comp_def del: upt_Suc)
  then have "Log_InitLog c ee s = Some (s', map (slot_addr c) [1 ..< n + 2])"
    using r(1) by (simp add: Log_InitLog_def Let_def del: upt_Suc)
  then show ?thesis
    using r(2-) by (intro exI [of _ s'] exI [of _ n]) (simp add: wf_logger_def)
qed

lemma slot_addr_not_flag_addr:
  assumes "2 \<le> rec_size c"
  shows "slot_addr c j \<noteq> flag_addr c r"
proof
  assume "slot_addr c j = flag_addr c r"
  then have "j * rec_size c = r * rec_size c + (rec_size c - 1)"
    by (simp add: slot_addr_def flag_addr_def)
  then have "(j * rec_size c) mod rec_size c = (r * rec_size c + (rec_size c - 1)) mod rec_size c"
    by simp
  then have "0 = (rec_size c - 1) mod rec_size c" by simp
  then show False using assms by simp
qed

lemma Log_InitLog_reads:
  assumes "valid_cfg c" "Log_InitLog c ee s = Some (s', rd)"
  shows "hd rd = slot_addr c 1" and "\<forall>a \<in> set rd. \<forall>r. a \<noteq> flag_addr c r"
proof -
  have "\<exists>s' n. Log_InitLog c ee s = Some (s', map (slot_addr c) [1 ..< n + 2])
     \<and> 1 \<le> n \<and> n < recs c \<and> wf_logger c s'
     \<and> wr_a s' = wr_a s \<and> wr_i s' = wr_i s \<and> Log_RecBuf s' = Log_RecBuf s"
    using assms(1) by (rule Log_InitLog_returns)
  then obtain s1 n where "Log_InitLog c ee s = Some (s1, map (slot_addr c) [1 ..< n + 2])"
    by blast
  then have rd: "rd = map (slot_addr c) [1 ..< n + 2]" using assms(2) by simp
  have ne: "[1 ..< n + 2] \<noteq> []" by simp
  show "hd rd = slot_addr c 1"
    unfolding rd using ne by (simp add: hd_map del: upt_Suc)
  have S: "2 \<le> rec_size c" using assms(1) by (simp add: valid_cfg_def)
  show "\<forall>a \<in> set rd. \<forall>r. a \<noteq> flag_addr c r"
  proof (intro ballI allI)
    fix a r assume "a \<in> set rd"
    then obtain j where "a = slot_addr c j" unfolding rd by auto
    then show "a \<noteq> flag_addr c r" using slot_addr_not_flag_addr [OF S] by simp
  qed
qed

lemma byte_xor_eq_0: "(f :: byte) XOR g = 0 \<longleftrightarrow> g = f"
proof
  assume "f XOR g = 0"
  then have "f XOR (f XOR g) = f XOR 0" by simp
  then show "g = f" by (simp only: xor.assoc [symmetric] xor_self_eq xor.left_neutral xor.right_neutral)
next
  assume "g = f"
  then show "f XOR g = 0" by simp
qed

lemma Log_InitLog_loop_scan:
  assumes N: "recs c \<le> 255"
  shows "1 \<le> unat cr \<Longrightarrow> unat cr < recs c \<Longrightarrow> a = slot_addr c (unat cr) \<Longrightarrow>
     map_option fst (Log_InitLog_loop c ee f a cr rd s) =
       Some (case List.find (\<lambda>k. scanned_flag c ee k \<noteq> f) [unat cr ..< recs c] of
               Some k \<Rightarrow> s\<lparr>Log_CurRec := of_nat k, Log_CurReadRec := of_nat ((k + 1) mod recs c)\<rparr>
             | None \<Rightarrow> s\<lparr>Log_CurRec := 0, Log_CurReadRec := 1, Log_CurFlag := f XOR LOG_FLAG_MASK\<rparr>)"
proof (induction "recs c - unat cr" arbitrary: cr a rd)
  case 0
  then show ?case by simp
next
  case (Suc k)
  let ?a1 = "a + rec_size c"
  let ?P = "\<lambda>k. scanned_flag c ee k \<noteq> f"
  have N2: "2 \<le> recs c" using Suc.prems by simp
  have a1: "?a1 = slot_addr c (unat cr + 1)"
    using Suc.prems(3) by (simp add: slot_addr_def)
  have test: "f XOR Log_ReadFlag ee ?a1 \<noteq> 0 \<longleftrightarrow> ?P (unat cr)"
    unfolding a1 scanned_flag_def by (simp only: byte_xor_eq_0)
  have up: "[unat cr ..< recs c] = unat cr # [Suc (unat cr) ..< recs c]"
    using Suc.prems(2) by (simp add: upt_conv_Cons)
  show ?case
  proof (cases "?P (unat cr)")
    case True
    have h: "unat (ring_fwd c cr) = (unat cr + 1) mod recs c"
      using N2 N Suc.prems(2) by (rule ring_fwd_unat)
    have rf: "ring_fwd c cr = of_nat ((unat cr + 1) mod recs c)"
      unfolding h [symmetric] by simp
    have "Log_InitLog_loop c ee f a cr rd s =
        Some (s\<lparr>Log_CurRec := cr, Log_CurReadRec := ring_fwd c cr\<rparr>, rd @ [?a1])"
      using True test by (subst Log_InitLog_loop.simps) (simp add: Let_def)
    then show ?thesis
      unfolding up using True by (simp add: rf)
  next
    case False
    have u: "unat (cr + 1) = unat cr + 1"
      using Suc.prems N by (simp add: unat_word_ariths)
    have lt: "uint (cr + 1) < int (recs c) \<longleftrightarrow> unat cr + 1 < recs c"
      unfolding u [symmetric] by (simp only: uint_nat of_nat_less_iff)
    show ?thesis
    proof (cases "unat cr + 1 < recs c")
      case more: True
      have k: "k = recs c - unat (cr + 1)" using Suc.hyps(2) u by simp
      have p: "1 \<le> unat (cr + 1)" "unat (cr + 1) < recs c" "?a1 = slot_addr c (unat (cr + 1))"
        using u more a1 by simp_all
      note ih = Suc.hyps(1) [OF k p, of "rd @ [?a1]", unfolded u]
      have step: "Log_InitLog_loop c ee f a cr rd s =
          Log_InitLog_loop c ee f ?a1 (cr + 1) (rd @ [?a1]) s"
        using False test more lt by (subst Log_InitLog_loop.simps) (simp add: Let_def)
      show ?thesis
        unfolding step up using False ih by simp
    next
      case stop: False
      have nil: "[Suc (unat cr) ..< recs c] = []" using stop by simp
      have "Log_InitLog_loop c ee f a cr rd s =
          Some (s\<lparr>Log_CurRec := 0, Log_CurReadRec := 1, Log_CurFlag := f XOR LOG_FLAG_MASK\<rparr>, rd @ [?a1])"
        using False test stop lt by (subst Log_InitLog_loop.simps) (simp add: Let_def)
      then show ?thesis
        unfolding up nil using False by simp
    qed
  qed
qed

lemma Log_InitLog_scan:
  assumes "valid_cfg c"
  shows "map_option fst (Log_InitLog c ee s) = Some (scan_result c ee s)"
proof -
  have N: "recs c \<le> 255" "2 \<le> recs c" using assms by (simp_all add: valid_cfg_def)
  let ?a = "start_addr c + rec_size c"
  have f: "Log_ReadFlag ee ?a = scanned_flag c ee 0"
    by (simp add: scanned_flag_def slot_addr_def)
  have p: "1 \<le> unat (1 :: byte)" "unat (1 :: byte) < recs c" "?a = slot_addr c (unat (1 :: byte))"
    using N by (simp_all add: slot_addr_def)
  note l = Log_InitLog_loop_scan [OF N(1) p, of ee "scanned_flag c ee 0" "[?a]"
      "s\<lparr>Log_CurFlag := scanned_flag c ee 0\<rparr>"]
  have e: "Log_InitLog c ee s =
      Log_InitLog_loop c ee (scanned_flag c ee 0) ?a 1 [?a] (s\<lparr>Log_CurFlag := scanned_flag c ee 0\<rparr>)"
    unfolding Log_InitLog_def Let_def f ..
  show ?thesis
  proof (cases "first_mismatch c ee")
    case None
    then show ?thesis
      unfolding e l scan_result_def using None [unfolded first_mismatch_def] by simp
  next
    case (Some k)
    then show ?thesis
      unfolding e l scan_result_def using Some [unfolded first_mismatch_def] by simp
  qed
qed

subsection \<open>Initialisation, recovery and the concrete scenario\<close>

text \<open>
  Claim C8 fails on the code.  On the zeroed EEPROM of the small log the scan
  reads addresses 3, 6, 9 and 12: the first bytes of slots 1, 2, 3 and the byte
  after the region, where the flag bytes are at 2, 5, 8 and 11.
\<close>

theorem init_reads_first_bytes:
  "map_option snd (Log_InitLog cfg43 ee_zero (logger_reset cfg43)) = Some [3, 6, 9, 12]
   \<and> map (flag_addr cfg43) [0, 1, 2, 3] = [2, 5, 8, 11]
   \<and> \<not> in_region cfg43 12"
  by (simp add: run_eval flag_addr_def slot_addr_def in_region_def)

text \<open>
  Claim C2 fails on the code.  In \<open>ring7\<close> the flags of slots 0, 1, 2 are 0 and
  the flag of slot 3 is \<open>0x80\<close>, a mismatch at position 3; the scan ends with
  write cursor 0, flag \<open>0x80\<close> and read cursor 1.  In \<open>ring_hi\<close> the flags
  mismatch at position 2 and the flag of slot 0 is \<open>0x80\<close>; the scan ends with
  write cursor 1, flag 0 and read cursor 2.
\<close>

theorem init_misses_flag_boundary:
  "map (slot_flag cfg43 ring7) [0, 1, 2, 3] = [0, 0, 0, 0x80]
   \<and> map_option cursors (Log_run cfg43 [Init] (world_on ring7)) = Some (0, 0x80, 1)
   \<and> map (slot_flag cfg43 ring_hi) [0, 1, 2, 3] = [0x80, 0x80, 0, 0]
   \<and> map_option cursors (Log_run cfg43 [Init] (world_on ring_hi)) = Some (1, 0, 2)"
  by (simp add: run_eval slot_flag_def flag_addr_def slot_addr_def)

text \<open>
  Claim C7, amended.  With four records of three bytes and a zeroed EEPROM (so
  all flags are 0): after the scan the write cursor is 0 and the flag is
  \<open>0x80\<close>.  Writing \<open>A\<close>, \<open>A\<close>, \<open>A\<close>, \<open>B\<close> fills slots 0, 1, 2 and 3; the write
  cursor is 3 with the flag unchanged after the third write, and wraps to 0 with
  the flag inverted after the fourth.  \<^verbatim>\<open>Log_ReadFirst\<close> then delivers the record
  of slot 1 (the second \<open>A\<close>), and the following \<^verbatim>\<open>Log_ReadNext\<close> calls deliver
  \<open>A\<close> (slot 2), \<open>B\<close> (slot 3), and then return 0: three records, the one in slot
  0 being at the write cursor.
\<close>

theorem concrete_scenario:
  "map_option cursors (Log_run cfg43 [Init] world0) = Some (0, 0x80, 1)
   \<and> map_option cursors (Log_run cfg43 (Init # write3 recA @ write3 recA @ write3 recA) world0)
        = Some (3, 0x80, 0)
   \<and> map_option cursors (Log_run cfg43 fill_AAAB world0) = Some (0, 0, 1)
   \<and> map_option (region_bytes cfg43 \<circ> snd) (Log_run cfg43 fill_AAAB world0)
        = Some [0x41, 0x41, 0xC1,  0x41, 0x41, 0xC1,  0x41, 0x41, 0xC1,  0x42, 0x42, 0xC2]
   \<and> map_option (drop 13 \<circ> fst)
        (Log_run cfg43 (fill_AAAB @ [ReadFirst, ReadNext, ReadNext, ReadNext]) world0)
        = Some [(None, recA), (Some 1, recA), (Some 1, recB), (Some 0, recB)]
   \<and> map_option cursors
        (Log_run cfg43 (fill_AAAB @ [ReadFirst, ReadNext, ReadNext, ReadNext]) world0)
        = Some (0, 0, 3)"
  by (simp add: run_eval region_bytes_def upt_conv_Cons)

text \<open>
  Claim C7 as stated fails: the reads do not deliver \<open>A\<close>, \<open>A\<close>, \<open>A\<close>, \<open>B\<close> and
  then fail.
\<close>

theorem concrete_scenario_as_claimed_fails:
  "map_option (drop 13 \<circ> fst)
     (Log_run cfg43 (fill_AAAB @ [ReadFirst, ReadNext, ReadNext, ReadNext, ReadNext]) world0)
   \<noteq> Some [(None, recA), (Some 1, recA), (Some 1, recA), (Some 1, recB), (Some 0, recB)]"
  by (simp add: run_eval)

text \<open>
  Claim C1 fails on the code.  After seven records the eighth is being written
  to slot 3; power is lost when one byte (or two bytes) of it have been issued.
  The scan then reconstructs write cursor 0, and a traversal from there delivers
  the half-written slot 3.
\<close>

theorem recovery_after_power_loss_fails:
  "map_option cursors (Log_run cfg43 (seven_writes @ [NoblockingWrite True (Some (recd 8))]) world0)
      = Some (3, 0, 0)
   \<and> map_option (region_bytes cfg43 \<circ> snd)
        (Log_run cfg43 (seven_writes @ [NoblockingWrite True (Some (recd 8))]) world0)
      = Some [5, 5, 5,  6, 6, 6,  7, 7, 7,  8, 4, 0x84]
   \<and> map_option cursors
        (Log_run_restart cfg43 (seven_writes @ [NoblockingWrite True (Some (recd 8))]) [Init] world0)
      = Some (0, 0x80, 1)
   \<and> map_option fst
        (Log_run_restart cfg43 (seven_writes @ [NoblockingWrite True (Some (recd 8))])
           [Init, ReadFirst, ReadNext, ReadNext] world0)
      = Some [(None, [0, 0, 0]), (None, [6, 6, 6]), (Some 1, [7, 7, 7]), (Some 1, [8, 4, 4])]
   \<and> map_option cursors
        (Log_run_restart cfg43
           (seven_writes @ [NoblockingWrite True (Some (recd 8)), NoblockingWrite True None]) [Init] world0)
      = Some (0, 0x80, 1)"
  by (simp add: run_eval region_bytes_def upt_conv_Cons)

text \<open>
  Claim C3 fails on the code.  The ring left by seven writes holds records 5, 6,
  7 in slots 0, 1, 2 and the older record 4 in slot 3, the next to be written.
  After a restart, the scan and one more write (record 8), reading forward
  delivers 7, 4, 8 and reading backward 8, 4, 7: record 4, written before
  record 7, comes after it, and record 6 is not delivered.
\<close>

theorem traversal_after_rescan_fails:
  "map_option (region_bytes cfg43 \<circ> snd) (Log_run cfg43 seven_writes world0)
      = Some [5, 5, 5,  6, 6, 6,  7, 7, 7,  4, 4, 0x84]
   \<and> map_option cursors (Log_run cfg43 seven_writes world0) = Some (3, 0, 0)
   \<and> map_option (drop 4 \<circ> fst)
        (Log_run_restart cfg43 seven_writes
           (Init # write3 (recd 8) @ [ReadFirst, ReadNext, ReadNext, ReadNext,
                                      ReadLast, ReadPrev, ReadPrev, ReadPrev]) world0)
      = Some [(None, [7, 7, 7]), (Some 1, [4, 4, 4]), (Some 1, [8, 8, 8]), (Some 0, [8, 8, 8]),
              (None, [8, 8, 8]), (Some 1, [4, 4, 4]), (Some 1, [7, 7, 7]), (Some 0, [7, 7, 7])]"
  by (simp add: run_eval region_bytes_def upt_conv_Cons)

end
